theory Spec2Isabelle
  imports Main "HOL-Library.Word"
begin

unbundle bit_operations_syntax

section \<open>Songs\<close>

text \<open>
  \<open>type Note struct\<close> and \<open>type Song struct\<close> of the player: every field of a
  \<open>Note\<close> is an \<open>int\<close>. Of a \<open>Song\<close> the model keeps \<open>Length\<close> and \<open>Notes\<close>;
  \<open>Tempo\<close> and \<open>Duration\<close> are floats, of which the player reads \<open>Tempo\<close> once, to
  compute the duration of a tick, and \<open>Title\<close> and \<open>Author\<close> are never read.
\<close>

record Note =
  Tick :: int
  Layer :: int
  Instrument :: int
  Key :: int
  Velocity :: int
  Panning :: int
  Pitch :: int

record Song =
  Length :: int
  Notes :: "Note list"

section \<open>The NBS decoder\<close>

subsection \<open>Data\<close>

text \<open>
  The file handed to \<open>ParseNBS\<close> is modelled by its contents, a list of bytes; the
  position of the \<open>io.Reader\<close> is the list of bytes not yet read, threaded through
  every read. A failing \<open>os.Open\<close> and read errors of the operating system are outside
  the model: the only errors a read of a byte list can give are the two of \<open>io.ReadFull\<close>.
\<close>

type_synonym byte = "8 word"

datatype error = EOF | ErrUnexpectedEOF

type_synonym 'a reader = "byte list \<Rightarrow> error + ('a \<times> byte list)"

text \<open>
  Go's \<open>int\<close> is taken to be 64 bits wide (two's complement), as on every 64-bit
  platform: \<open>go_int\<close> wraps a mathematical integer into that range, and is applied
  wherever the decoder adds to an \<open>int\<close>.
\<close>

definition go_int :: "int \<Rightarrow> int" where
  "go_int x = (x + 2 ^ 63) mod 2 ^ 64 - 2 ^ 63"

text \<open>
  \<open>type Notes struct\<close>: \<open>Tick\<close> and \<open>Layer\<close> are \<open>int\<close>, the others are the
  fixed-width types of the file; \<open>Pitch\<close> is an \<open>int16\<close>, kept as its 16 bits and
  read with \<open>sint\<close>.
\<close>

record Notes =
  Tick :: int
  Layer :: int
  Instrument :: "8 word"
  Key :: "8 word"
  Velocity :: "8 word"
  Panning :: "8 word"
  Pitch :: "16 word"

text \<open>
  \<open>type NBSData struct\<close>. The two \<open>float32\<close> fields are not modelled as floats:
  \<open>TempoRaw\<close> is the \<open>uint16\<close> read from the file, of which \<open>Tempo\<close> is
  \<open>float32(tempoRaw) / 100.0\<close>, and \<open>Duration\<close>, computed from \<open>Length\<close> and
  \<open>Tempo\<close> alone, is left out.
\<close>

record NBSData =
  Version :: "8 word"
  Length :: "16 word"
  Layers :: "16 word"
  TempoRaw :: "16 word"
  Notess :: "Notes list"

subsection \<open>Binary reader helpers\<close>

text \<open>
  \<open>io.ReadFull(r, buf)\<close> with \<open>len(buf) = n\<close>: the next \<open>n\<close> bytes, or \<open>EOF\<close> when
  no byte is left and \<open>ErrUnexpectedEOF\<close> when fewer than \<open>n\<close> are.
\<close>

definition ReadFull :: "nat \<Rightarrow> (byte list) reader" where
  "ReadFull n bs =
     (if n \<le> length bs then Inr (take n bs, drop n bs)
      else if bs = [] then Inl EOF
      else Inl ErrUnexpectedEOF)"

definition readUint8 :: "(8 word) reader" where
  "readUint8 bs =
     (case ReadFull 1 bs of
        Inl err \<Rightarrow> Inl err
      | Inr (b, r) \<Rightarrow> Inr (b ! 0, r))"

definition readUint16 :: "(16 word) reader" where
  "readUint16 bs =
     (case ReadFull 2 bs of
        Inl err \<Rightarrow> Inl err
      | Inr (b, r) \<Rightarrow> Inr (ucast (b ! 0) OR push_bit 8 (ucast (b ! 1)), r))"

definition readUint32 :: "(32 word) reader" where
  "readUint32 bs =
     (case ReadFull 4 bs of
        Inl err \<Rightarrow> Inl err
      | Inr (b, r) \<Rightarrow>
          Inr (ucast (b ! 0) OR push_bit 8 (ucast (b ! 1))
                 OR push_bit 16 (ucast (b ! 2)) OR push_bit 24 (ucast (b ! 3)), r))"

definition readInt16 :: "(16 word) reader" where
  "readInt16 bs =
     (case ReadFull 2 bs of
        Inl err \<Rightarrow> Inl err
      | Inr (b, r) \<Rightarrow> Inr (ucast (b ! 0) OR push_bit 8 (ucast (b ! 1)), r))"

text \<open>
  \<open>readString\<close>: a \<open>uint32\<close> length, then that many bytes. The source returns
  \<open>cleanString\<close> of them; every call in \<open>ParseNBS\<close> discards the string and keeps
  the error only, so the model returns the bytes as read.
\<close>

definition readString :: "(byte list) reader" where
  "readString bs =
     (case readUint32 bs of
        Inl err \<Rightarrow> Inl err
      | Inr (len, r) \<Rightarrow>
          if len = 0 then Inr ([], r)
          else (case ReadFull (unat len) r of
                  Inl err \<Rightarrow> Inl err
                | Inr (strBytes, r') \<Rightarrow> Inr (strBytes, r')))"

text \<open>
  \<open>v, err := read(file); if err != nil { return nil, err }\<close> followed by the rest of
  the function is \<open>bindR read (\<lambda>v. rest)\<close>; a counted loop of reads whose values are
  dropped, \<open>for i := 0; i < n; i++ { if _, err := read(file); err != nil { ... } }\<close>, is
  \<open>skipR n read\<close>.
\<close>

definition bindR :: "'a reader \<Rightarrow> ('a \<Rightarrow> 'b reader) \<Rightarrow> 'b reader" where
  "bindR p f bs = (case p bs of Inl err \<Rightarrow> Inl err | Inr (v, r) \<Rightarrow> f v r)"

definition returnR :: "'a \<Rightarrow> 'a reader" where
  "returnR v bs = Inr (v, bs)"

fun skipR :: "nat \<Rightarrow> 'a reader \<Rightarrow> unit reader" where
  "skipR 0 p bs = Inr ((), bs)"
| "skipR (Suc n) p bs = (case p bs of Inl err \<Rightarrow> Inl err | Inr (_, r) \<Rightarrow> skipR n p r)"

subsection \<open>The note-block loops\<close>

lemma ReadFull_length:
  "ReadFull n bs = Inr (b, r) \<Longrightarrow> length b = n \<and> length r + n = length bs"
  by (auto simp: ReadFull_def split: if_splits)

lemma readUint8_length: "readUint8 bs = Inr (v, r) \<Longrightarrow> length r + 1 = length bs"
  by (auto simp: readUint8_def split: sum.splits dest: ReadFull_length)

lemma readUint16_length: "readUint16 bs = Inr (v, r) \<Longrightarrow> length r + 2 = length bs"
  by (auto simp: readUint16_def split: sum.splits dest: ReadFull_length)

lemma readInt16_length: "readInt16 bs = Inr (v, r) \<Longrightarrow> length r + 2 = length bs"
  by (auto simp: readInt16_def split: sum.splits dest: ReadFull_length)

text \<open>
  The reads of one note inside the inner loop, in the order of the source:
  \<open>instrument\<close> and \<open>key\<close>, then, for \<open>data.Version >= 4\<close> only, \<open>velocity\<close>,
  \<open>panning\<close> and \<open>pitch\<close>, which are 100, 100 and 0 otherwise.
\<close>

definition readNoteFields ::
  "8 word \<Rightarrow> (8 word \<times> 8 word \<times> 8 word \<times> 8 word \<times> 16 word) reader" where
  "readNoteFields version =
     bindR readUint8 (\<lambda>instrument.
     bindR readUint8 (\<lambda>key.
       if version \<ge> 4
       then bindR readUint8 (\<lambda>velocity.
            bindR readUint8 (\<lambda>panning.
            bindR readInt16 (\<lambda>pitch.
            returnR (instrument, key, velocity, panning, pitch))))
       else returnR (instrument, key, 100, 100, 0)))"

lemma readNoteFields_length:
  assumes "readNoteFields version bs = Inr (v, r)"
  shows "length r + 2 \<le> length bs"
proof -
  from assms obtain i r1 k r2 where
    r1: "readUint8 bs = Inr (i, r1)" and r2: "readUint8 r1 = Inr (k, r2)"
    and rest: "(if version \<ge> 4
       then bindR readUint8 (\<lambda>velocity.
            bindR readUint8 (\<lambda>panning.
            bindR readInt16 (\<lambda>pitch.
            returnR (i, k, velocity, panning, pitch))))
       else returnR (i, k, 100, 100, 0)) r2 = Inr (v, r)"
    by (auto simp: readNoteFields_def bindR_def split: sum.splits)
  have "length r \<le> length r2"
    using rest
    by (auto simp: bindR_def returnR_def split: sum.splits if_splits
        dest!: readUint8_length readInt16_length)
  with readUint8_length [OF r1] readUint8_length [OF r2] show ?thesis by simp
qed

text \<open>
  The inner loop of \<open>ParseNBS\<close> (the layers of one tick), with the variables it
  changes as arguments: \<open>layer\<close>, \<open>allNotess\<close> and the reader. It returns at the
  \<open>break\<close> with the notes so far and the bytes left.
\<close>

function ParseNBS_layers ::
  "8 word \<Rightarrow> int \<Rightarrow> int \<Rightarrow> Notes list \<Rightarrow> (Notes list) reader" where
  "ParseNBS_layers version tick layer allNotess bs =
     (case readUint16 bs of
        Inl err \<Rightarrow> Inl err
      | Inr (jumpLayers, r1) \<Rightarrow>
          if jumpLayers = 0 then Inr (allNotess, r1)
          else
            (case readNoteFields version r1 of
               Inl err \<Rightarrow> Inl err
             | Inr ((instrument, key, velocity, panning, pitch), r2) \<Rightarrow>
                 if key = 0
                 then ParseNBS_layers version tick (go_int (layer + uint jumpLayers))
                        allNotess r2
                 else ParseNBS_layers version tick (go_int (layer + uint jumpLayers))
                        (allNotess @
                         [\<lparr>Tick = tick, Layer = go_int (layer + uint jumpLayers),
                           Instrument = instrument, Key = key, Velocity = velocity,
                           Panning = panning, Pitch = pitch\<rparr>]) r2))"
  by pat_completeness auto
termination
proof (relation "measure (\<lambda>(version, tick, layer, allNotess, bs). length bs)", goal_cases)
  case 1
  show ?case by simp
next
  case 2
  then show ?case
    by (auto dest!: readUint16_length readNoteFields_length)
next
  case 3
  then show ?case
    by (auto dest!: readUint16_length readNoteFields_length)
qed

declare ParseNBS_layers.simps [simp del]

lemma ParseNBS_layers_unfold:
  assumes "ParseNBS_layers version tick layer allNotess bs = Inr (ns, r)"
  shows "(readUint16 bs = Inr (0, r) \<and> ns = allNotess) \<or>
   (\<exists>jumpLayers r1 instrument key velocity panning pitch r2.
      readUint16 bs = Inr (jumpLayers, r1) \<and> jumpLayers \<noteq> 0 \<and>
      readNoteFields version r1 = Inr ((instrument, key, velocity, panning, pitch), r2) \<and>
      ParseNBS_layers version tick (go_int (layer + uint jumpLayers))
         (if key = 0 then allNotess
          else allNotess @ [\<lparr>Tick = tick, Layer = go_int (layer + uint jumpLayers),
                 Instrument = instrument, Key = key, Velocity = velocity,
                 Panning = panning, Pitch = pitch\<rparr>]) r2 = Inr (ns, r))"
  using assms
  by (subst (asm) ParseNBS_layers.simps)
    (auto split: sum.splits if_splits prod.splits)

lemma ParseNBS_layers_length:
  "ParseNBS_layers version tick layer allNotess bs = Inr (ns, r) \<Longrightarrow> length r < length bs"
proof (induction "length bs" arbitrary: layer allNotess bs rule: less_induct)
  case less
  from ParseNBS_layers_unfold [OF less.prems] show ?case
  proof (elim disjE exE conjE)
    assume "readUint16 bs = Inr (0, r)"
    from readUint16_length [OF this] show ?thesis by simp
  next
    fix jumpLayers r1 instrument key velocity panning pitch r2
    assume r1: "readUint16 bs = Inr (jumpLayers, r1)"
      and r2: "readNoteFields version r1 = Inr ((instrument, key, velocity, panning, pitch), r2)"
      and rec: "ParseNBS_layers version tick (go_int (layer + uint jumpLayers))
         (if key = 0 then allNotess
          else allNotess @ [\<lparr>Tick = tick, Layer = go_int (layer + uint jumpLayers),
                 Instrument = instrument, Key = key, Velocity = velocity,
                 Panning = panning, Pitch = pitch\<rparr>]) r2 = Inr (ns, r)"
    have l: "length r2 < length bs"
      using readUint16_length [OF r1] readNoteFields_length [OF r2] by simp
    from less.hyps [OF l rec] l show ?thesis by simp
  qed
qed

text \<open>
  The outer loop of \<open>ParseNBS\<close> (the ticks), with \<open>tick\<close>, \<open>allNotess\<close> and the
  reader as arguments; each tick starts its layers at \<open>-1\<close>.
\<close>

function ParseNBS_ticks :: "8 word \<Rightarrow> int \<Rightarrow> Notes list \<Rightarrow> (Notes list) reader" where
  "ParseNBS_ticks version tick allNotess bs =
     (case readUint16 bs of
        Inl err \<Rightarrow> Inl err
      | Inr (jumpTicks, r1) \<Rightarrow>
          if jumpTicks = 0 then Inr (allNotess, r1)
          else
            let tick' = go_int (tick + uint jumpTicks) in
            (case ParseNBS_layers version tick' (- 1) allNotess r1 of
               Inl err \<Rightarrow> Inl err
             | Inr (allNotess', r2) \<Rightarrow> ParseNBS_ticks version tick' allNotess' r2))"
  by pat_completeness auto
termination
proof (relation "measure (\<lambda>(version, tick, allNotess, bs). length bs)", goal_cases)
  case 1
  show ?case by simp
next
  case 2
  then show ?case
    by (auto dest!: readUint16_length ParseNBS_layers_length)
qed

declare ParseNBS_ticks.simps [simp del]

subsection \<open>ParseNBS\<close>

text \<open>
  The loop that finds \<open>maxTick\<close>: it starts from \<open>allNotess[0].Tick\<close> and is only
  run on a non-empty slice.
\<close>

definition maxTick :: "Notes list \<Rightarrow> int" where
  "maxTick allNotess =
     foldl (\<lambda>m n. if Tick n > m then Tick n else m) (Tick (allNotess ! 0)) allNotess"

text \<open>
  \<open>ParseNBS\<close>, read by read in the order of the source. The part before the note
  blocks (``Parse header and meta fields'') keeps four of the values it reads:
  \<open>data.Length\<close>, \<open>data.Version\<close>, \<open>data.Layers\<close> and \<open>tempoRaw\<close>.
\<close>

definition ParseNBS_header :: "(16 word \<times> 8 word \<times> 16 word \<times> 16 word) reader" where
  "ParseNBS_header =
     bindR readUint16 (\<lambda>len.
     bindR readUint8 (\<lambda>version.
     bindR readUint8 (\<lambda>_.
     bindR readUint16 (\<lambda>layers.
     bindR readUint16 (\<lambda>_.
     bindR (skipR 4 readString) (\<lambda>_.
     bindR readUint16 (\<lambda>tempoRaw.
     bindR (skipR 3 readUint8) (\<lambda>_.
     bindR (skipR 5 readUint32) (\<lambda>_.
     bindR readString (\<lambda>_.
     bindR (skipR 2 readUint8) (\<lambda>_.
     bindR readUint16 (\<lambda>_.
     returnR (len, version, layers, tempoRaw)))))))))))))"

text \<open>
  Then the note blocks (``Begin parsing note blocks''), from tick \<open>-1\<close> and no
  notes, and the length: \<open>uint16(maxTick)\<close> keeps the low 16 bits of the \<open>int\<close>.
  \<open>ParseNBS_reader\<close> also returns the bytes the decoder did not read; \<open>ParseNBS\<close>
  is the function of the source.
\<close>

definition ParseNBS_reader :: "NBSData reader" where
  "ParseNBS_reader =
     bindR ParseNBS_header (\<lambda>(len, version, layers, tempoRaw).
     bindR (ParseNBS_ticks version (- 1) []) (\<lambda>allNotess.
     returnR \<lparr>Version = version,
              Length = (if len = 0 \<and> length allNotess > 0
                        then word_of_int (maxTick allNotess) else len),
              Layers = layers,
              TempoRaw = tempoRaw,
              Notess = allNotess\<rparr>))"

definition ParseNBS :: "byte list \<Rightarrow> error + NBSData" where
  "ParseNBS file =
     (case ParseNBS_reader file of Inl err \<Rightarrow> Inl err | Inr (data, _) \<Rightarrow> Inr data)"

subsection \<open>One step of each loop\<close>

lemma bindR_Inr:
  "bindR p f bs = Inr (w, r') \<longleftrightarrow> (\<exists>v r. p bs = Inr (v, r) \<and> f v r = Inr (w, r'))"
  by (auto simp: bindR_def split: sum.splits)

lemma readUint32_length: "readUint32 bs = Inr (v, r) \<Longrightarrow> length r + 4 = length bs"
  by (auto simp: readUint32_def split: sum.splits dest: ReadFull_length)

lemma readString_length: "readString bs = Inr (v, r) \<Longrightarrow> length r + 4 \<le> length bs"
  by (auto simp: readString_def split: sum.splits if_splits
      dest!: ReadFull_length readUint32_length)

lemma skipR_length:
  assumes "skipR n p bs = Inr (u, r)"
    and "\<And>bs v r. p bs = Inr (v, r) \<Longrightarrow> length r \<le> length bs"
  shows "length r \<le> length bs"
  using assms(1)
proof (induction n arbitrary: bs)
  case 0
  then show ?case by simp
next
  case (Suc n)
  then obtain v r1 where p: "p bs = Inr (v, r1)" and s: "skipR n p r1 = Inr (u, r)"
    by (auto split: sum.splits)
  from Suc.IH [OF s] assms(2) [OF p] show ?case by simp
qed

lemma ParseNBS_ticks_unfold:
  assumes "ParseNBS_ticks version tick allNotess bs = Inr (ns, r)"
  shows "(readUint16 bs = Inr (0, r) \<and> ns = allNotess) \<or>
   (\<exists>jumpTicks r1 allNotess' r2.
      readUint16 bs = Inr (jumpTicks, r1) \<and> jumpTicks \<noteq> 0 \<and>
      ParseNBS_layers version (go_int (tick + uint jumpTicks)) (- 1) allNotess r1
        = Inr (allNotess', r2) \<and>
      ParseNBS_ticks version (go_int (tick + uint jumpTicks)) allNotess' r2 = Inr (ns, r))"
  using assms
  by (subst (asm) ParseNBS_ticks.simps)
    (auto simp: Let_def split: sum.splits if_splits prod.splits)

lemma ParseNBS_header_length:
  assumes "ParseNBS_header bs = Inr (h, r)"
  shows "length r \<le> length bs"
proof -
  from assms obtain len r1 version r2 x3 r3 layers r4 x5 r5 x6 r6 tempoRaw r7
    x8 r8 x9 r9 x10 r10 x11 r11 x12 where
    f1: "readUint16 bs = Inr (len, r1)" and
    f2: "readUint8 r1 = Inr (version, r2)" and
    f3: "readUint8 r2 = Inr (x3, r3)" and
    f4: "readUint16 r3 = Inr (layers, r4)" and
    f5: "readUint16 r4 = Inr (x5, r5)" and
    f6: "skipR 4 readString r5 = Inr (x6, r6)" and
    f7: "readUint16 r6 = Inr (tempoRaw, r7)" and
    f8: "skipR 3 readUint8 r7 = Inr (x8, r8)" and
    f9: "skipR 5 readUint32 r8 = Inr (x9, r9)" and
    f10: "readString r9 = Inr (x10, r10)" and
    f11: "skipR 2 readUint8 r10 = Inr (x11, r11)" and
    f12: "readUint16 r11 = Inr (x12, r)"
    unfolding ParseNBS_header_def bindR_Inr returnR_def by auto
  have l6: "length r6 \<le> length r5"
    by (rule skipR_length [OF f6]) (drule readString_length, simp)
  have l8: "length r8 \<le> length r7"
    by (rule skipR_length [OF f8]) (drule readUint8_length, simp)
  have l9: "length r9 \<le> length r8"
    by (rule skipR_length [OF f9]) (drule readUint32_length, simp)
  have l11: "length r11 \<le> length r10"
    by (rule skipR_length [OF f11]) (drule readUint8_length, simp)
  show ?thesis
    using readUint16_length [OF f1] readUint8_length [OF f2] readUint8_length [OF f3]
      readUint16_length [OF f4] readUint16_length [OF f5] l6
      readUint16_length [OF f7] l8 l9 readString_length [OF f10] l11
      readUint16_length [OF f12]
    by linarith
qed

text \<open>
  What a successful \<open>ParseNBS\<close> has done: read the header, then run the tick loop
  from tick \<open>-1\<close> with no notes on the bytes after it.
\<close>

lemma ParseNBS_reader_unfold:
  assumes "ParseNBS_reader bs = Inr (d, rest)"
  shows "\<exists>len r0.
     ParseNBS_header bs = Inr ((len, Version d, Layers d, TempoRaw d), r0) \<and>
     ParseNBS_ticks (Version d) (- 1) [] r0 = Inr (Notess d, rest) \<and>
     Length d = (if len = 0 \<and> length (Notess d) > 0
                 then word_of_int (maxTick (Notess d)) else len)"
proof -
  from assms obtain len version layers tempoRaw r0 allNotess where
    h: "ParseNBS_header bs = Inr ((len, version, layers, tempoRaw), r0)" and
    t: "ParseNBS_ticks version (- 1) [] r0 = Inr (allNotess, rest)" and
    d: "d = \<lparr>Version = version,
              Length = (if len = 0 \<and> length allNotess > 0
                        then word_of_int (maxTick allNotess) else len),
              Layers = layers, TempoRaw = tempoRaw, Notess = allNotess\<rparr>"
    by (auto simp: ParseNBS_reader_def bindR_Inr returnR_def)
  show ?thesis
    by (rule exI [of _ len], rule exI [of _ r0]) (use h t d in simp)
qed

lemma ParseNBS_unfold:
  assumes "ParseNBS file = Inr d"
  shows "\<exists>len r0 rest.
     ParseNBS_header file = Inr ((len, Version d, Layers d, TempoRaw d), r0) \<and>
     ParseNBS_ticks (Version d) (- 1) [] r0 = Inr (Notess d, rest) \<and>
     Length d = (if len = 0 \<and> length (Notess d) > 0
                 then word_of_int (maxTick (Notess d)) else len)"
proof -
  from assms obtain rest where "ParseNBS_reader file = Inr (d, rest)"
    by (auto simp: ParseNBS_def split: sum.splits)
  from ParseNBS_reader_unfold [OF this] show ?thesis by blast
qed

subsection \<open>Reading a stream whose first bytes are known\<close>

lemma readUint8_Cons [simp]: "readUint8 (b # r) = Inr (b, r)"
  by (simp add: readUint8_def ReadFull_def)

lemma readUint16_Cons [simp]:
  "readUint16 (b0 # b1 # r) = Inr (ucast b0 OR push_bit 8 (ucast b1), r)"
  by (simp add: readUint16_def ReadFull_def)

lemma readInt16_Cons [simp]:
  "readInt16 (b0 # b1 # r) = Inr (ucast b0 OR push_bit 8 (ucast b1), r)"
  by (simp add: readInt16_def ReadFull_def)

lemma readUint32_Cons [simp]:
  "readUint32 (b0 # b1 # b2 # b3 # r) =
     Inr (ucast b0 OR push_bit 8 (ucast b1) OR push_bit 16 (ucast b2)
            OR push_bit 24 (ucast b3), r)"
  by (simp add: readUint32_def ReadFull_def)

lemma readString_empty [simp]: "readString (0 # 0 # 0 # 0 # r) = Inr ([], r)"
  by (simp add: readString_def)

lemma skipR_unroll:
  "skipR n p bs =
     (if n = 0 then Inr ((), bs)
      else case p bs of Inl err \<Rightarrow> Inl err | Inr (v, r) \<Rightarrow> skipR (n - 1) p r)"
  by (cases n) (auto split: sum.splits)

lemma readNoteFields_Cons:
  "readNoteFields version (instrument # key # velocity # panning # p0 # p1 # r) =
     (if version \<ge> 4
      then Inr ((instrument, key, velocity, panning, ucast p0 OR push_bit 8 (ucast p1)), r)
      else Inr ((instrument, key, 100, 100, 0), velocity # panning # p0 # p1 # r))"
  by (simp add: readNoteFields_def bindR_def returnR_def)

lemma readNoteFields_old:
  "\<not> version \<ge> 4 \<Longrightarrow>
   readNoteFields version (instrument # key # r) = Inr ((instrument, key, 100, 100, 0), r)"
  by (simp add: readNoteFields_def bindR_def returnR_def)

text \<open>
  A smallest header for the examples: the declared length \<open>len1 len0\<close> (low byte
  first), the version, 16 vanilla instruments, one layer, no custom instrument,
  four empty strings, tempo 1000 (10 ticks per second), then the skipped fields,
  all zero, with an empty import name.
\<close>

definition example_header :: "byte \<Rightarrow> byte \<Rightarrow> byte \<Rightarrow> byte list" where
  "example_header len0 len1 version =
     [len0, len1, version, 16, 1, 0, 0, 0,
      0, 0, 0, 0, 0, 0, 0, 0, 0, 0, 0, 0, 0, 0, 0, 0,
      232, 3,
      0, 0, 4,
      0, 0, 0, 0, 0, 0, 0, 0, 0, 0, 0, 0, 0, 0, 0, 0, 0, 0, 0, 0,
      0, 0, 0, 0,
      0, 0,
      0, 0]"

lemma ParseNBS_header_example:
  "ParseNBS_header (example_header len0 len1 version @ r) =
     Inr ((ucast len0 OR push_bit 8 (ucast len1), version, 1, 1000), r)"
  by (simp add: ParseNBS_header_def example_header_def bindR_def returnR_def skipR_unroll)

lemma ParseNBS_example:
  "ParseNBS (example_header len0 len1 version @ r) =
     (case ParseNBS_ticks version (- 1) [] r of
        Inl err \<Rightarrow> Inl err
      | Inr (allNotess, _) \<Rightarrow>
          Inr \<lparr>Version = version,
               Length = (if ucast len0 OR push_bit 8 (ucast len1) = (0 :: 16 word)
                           \<and> length allNotess > 0
                         then word_of_int (maxTick allNotess)
                         else ucast len0 OR push_bit 8 (ucast len1)),
               Layers = 1, TempoRaw = 1000, Notess = allNotess\<rparr>)"
  by (simp add: ParseNBS_def ParseNBS_reader_def bindR_def [of ParseNBS_header]
      ParseNBS_header_example bindR_def returnR_def split: sum.splits)

section \<open>The player\<close>

subsection \<open>From decoded data to a song\<close>

text \<open>
  \<open>nbsConverter\<close>: the unsigned fields are widened with \<open>uint\<close>, the \<open>int16\<close> pitch
  with \<open>sint\<close>.
\<close>

definition nbsConverter :: "NBSData \<Rightarrow> Song" where
  "nbsConverter nd =
     \<lparr>Song.Length = uint (NBSData.Length nd),
      Notes = map (\<lambda>n. \<lparr>Note.Tick = Notes.Tick n,
                          Layer = Notes.Layer n,
                          Instrument = uint (Notes.Instrument n),
                          Key = uint (Notes.Key n),
                          Velocity = uint (Notes.Velocity n),
                          Panning = uint (Notes.Panning n),
                          Pitch = sint (Notes.Pitch n)\<rparr>) (Notess nd)\<rparr>"

subsection \<open>The registry of stop channels\<close>

text \<open>
  \<open>stopPlayer\<close> maps an entity handle to the stop channel of its playback. A stop
  channel is made with capacity 1 and carries no data, so its state is whether its
  slot is full. \<open>made\<close> counts the channels made so far and names the next one.
  \<open>stopPlayerMtx\<close> makes each of the functions below one step on this state.
\<close>

type_synonym handle = nat
type_synonym chan = nat

record registry =
  stopPlayer :: "handle \<rightharpoonup> chan"
  full :: "chan \<Rightarrow> bool"
  made :: nat

text \<open>\<open>select { case ch <- struct{}{}: default: }\<close>: the send goes through only into an
  empty slot.\<close>

definition trySend :: "chan \<Rightarrow> registry \<Rightarrow> registry" where
  "trySend ch s = (if full s ch then s else s\<lparr>full := (full s)(ch := True)\<rparr>)"

text \<open>\<open>select { case <-stopChan: return; default: }\<close>: the receive goes through only
  from a full slot, and empties it.\<close>

definition tryRecv :: "chan \<Rightarrow> registry \<Rightarrow> bool \<times> registry" where
  "tryRecv ch s = (if full s ch then (True, s\<lparr>full := (full s)(ch := False)\<rparr>) else (False, s))"

definition stopSong :: "handle \<Rightarrow> registry \<Rightarrow> bool \<times> registry" where
  "stopSong eh s =
     (case stopPlayer s eh of
        Some ch \<Rightarrow> (True, (trySend ch s)\<lparr>stopPlayer := (stopPlayer (trySend ch s))(eh := None)\<rparr>)
      | None \<Rightarrow> (False, s))"

text \<open>
  The first, locked part of \<open>playSong\<close>: signal the channel already registered for
  the handle, if there is one, then make \<open>stopChan\<close> and register it.
\<close>

definition playSong_register :: "handle \<Rightarrow> registry \<Rightarrow> chan \<times> registry" where
  "playSong_register eh s =
     (let s1 = (case stopPlayer s eh of Some ch \<Rightarrow> trySend ch s | None \<Rightarrow> s);
          stopChan = made s1
      in (stopChan,
          s1\<lparr>stopPlayer := (stopPlayer s1)(eh \<mapsto> stopChan),
             full := (full s1)(stopChan := False),
             made := Suc (made s1)\<rparr>))"

subsection \<open>The playback loop\<close>

datatype instrument =
  Piano | BassDrum | Snare | ClicksAndSticks | Bass | Flute | Bell | Guitar | Chimes
  | Xylophone | IronXylophone | CowBell | Didgeridoo | Bit | Banjo | Pling

definition instrumentSounds :: "instrument list" where
  "instrumentSounds =
     [Piano, BassDrum, Snare, ClicksAndSticks, Bass, Flute, Bell, Guitar, Chimes,
      Xylophone, IronXylophone, CowBell, Didgeridoo, Bit, Banjo, Pling]"

definition pitchKey :: "int \<Rightarrow> int" where
  "pitchKey key = key - 33"

text \<open>
  What the goroutine of \<open>playSong\<close> does to the outside, in order: it sleeps, it
  calls \<open>playSoundSelf\<close> with a \<open>sound.Note\<close>, it sends the player a message, it
  deletes the registry entry of its handle. The \<open>fmt.Printf\<close> of each note is left out.
  A \<open>time.Duration\<close> is an \<open>int64\<close> of nanoseconds.
\<close>

datatype action =
  Sleep "64 word"
  | PlaySoundSelf instrument int
  | Message string
  | DeleteEntry

definition notesPerTick :: "Note list \<Rightarrow> (int \<rightharpoonup> Note list)" where
  "notesPerTick notes =
     foldl (\<lambda>m note. m(Note.Tick note \<mapsto>
                (case m (Note.Tick note) of None \<Rightarrow> [] | Some ns \<Rightarrow> ns) @ [note]))
       Map.empty notes"

definition playNote :: "Note \<Rightarrow> action" where
  "playNote note =
     PlaySoundSelf
       (if Note.Instrument note \<ge> 0 \<and> Note.Instrument note < int (length instrumentSounds)
        then instrumentSounds ! nat (Note.Instrument note) else Piano)
       (pitchKey (Note.Key note))"

text \<open>
  The \<open>for\<close> loop of \<open>playSong\<close>, with \<open>tick\<close> and \<open>currentTick\<close> as arguments.
  \<open>stopped tick\<close> tells whether the receive from \<open>stopChan\<close> at the top of the
  iteration for \<open>tick\<close> finds a value (the boolean of \<open>tryRecv\<close> on the registry
  of that moment), which is for the other goroutines to decide.
  \<open>tickDuration\<close> is computed before the loop, in floating point, from \<open>song.Tempo\<close>;
  the loop is modelled for any value of it. The counter is a mathematical integer:
  \<open>tick++\<close> cannot leave the range of \<open>int\<close> while \<open>tick <= song.Length\<close> unless
  \<open>song.Length\<close> is the largest \<open>int\<close>.
\<close>

function playSong_loop ::
  "64 word \<Rightarrow> (int \<rightharpoonup> Note list) \<Rightarrow> (int \<Rightarrow> bool) \<Rightarrow> int \<Rightarrow> int \<Rightarrow> int \<Rightarrow> action list" where
  "playSong_loop tickDuration perTick stopped len tick currentTick =
     (if tick \<le> len then
        if stopped tick then []
        else
          (if tick > currentTick
           then [Sleep (word_of_int (tick - currentTick) * tickDuration)] else [])
          @ (case perTick tick of Some notes \<Rightarrow> map playNote notes | None \<Rightarrow> [])
          @ playSong_loop tickDuration perTick stopped len (tick + 1)
              (if tick > currentTick then tick else currentTick)
      else [])"
  by pat_completeness auto
termination
  by (relation "measure (\<lambda>(tickDuration, perTick, stopped, len, tick, currentTick).
        nat (len + 1 - tick))") auto

declare playSong_loop.simps [simp del]

text \<open>
  The goroutine from the loop on: the loop from tick 0 with \<open>currentTick = 0\<close>, then
  the deferred function, which runs however the loop is left.
\<close>

definition playSong :: "64 word \<Rightarrow> Song \<Rightarrow> (int \<Rightarrow> bool) \<Rightarrow> action list" where
  "playSong tickDuration song stopped =
     playSong_loop tickDuration (notesPerTick (Notes song)) stopped (Song.Length song) 0 0
     @ [Message ''Song playback finished.'', DeleteEntry]"

text \<open>The deferred \<open>delete(stopPlayer, eh)\<close> on the registry.\<close>

definition playSong_deferred :: "handle \<Rightarrow> registry \<Rightarrow> registry" where
  "playSong_deferred eh s = s\<lparr>stopPlayer := (stopPlayer s)(eh := None)\<rparr>"

subsection \<open>Facts about the loop\<close>

lemma notesPerTick_foldl:
  "foldl (\<lambda>m note. m(Note.Tick note \<mapsto>
            (case m (Note.Tick note) of None \<Rightarrow> [] | Some ns \<Rightarrow> ns) @ [note])) m0 notes t =
     (if filter (\<lambda>n. Note.Tick n = t) notes = [] then m0 t
      else Some ((case m0 t of None \<Rightarrow> [] | Some ns \<Rightarrow> ns)
                 @ filter (\<lambda>n. Note.Tick n = t) notes))"
  by (induction "notes" arbitrary: m0) (auto split: option.splits)

lemma notesPerTick_eq:
  "notesPerTick notes t =
     (if filter (\<lambda>n. Note.Tick n = t) notes = [] then None
      else Some (filter (\<lambda>n. Note.Tick n = t) notes))"
  by (simp add: notesPerTick_def notesPerTick_foldl)

lemma notesPerTick_played:
  "(case notesPerTick notes t of Some ns \<Rightarrow> map playNote ns | None \<Rightarrow> []) =
     map playNote (filter (\<lambda>n. Note.Tick n = t) notes)"
  by (simp add: notesPerTick_eq)

text \<open>The oracles of the examples: no stop at all, and a stop seen at one tick.\<close>

definition no_stop :: "int \<Rightarrow> bool" where
  "no_stop tick = False"

definition stop_at :: "int \<Rightarrow> int \<Rightarrow> bool" where
  "stop_at t tick = (tick = t)"

text \<open>One iteration that is not stopped, entered as the loop enters it: with
  \<open>currentTick\<close> the tick before, or both 0.\<close>

lemma playSong_loop_step:
  assumes "0 \<le> tick" "tick \<le> len" "\<not> stopped tick"
    and "currentTick = (if tick = 0 then 0 else tick - 1)"
  shows "playSong_loop td (notesPerTick notes) stopped len tick currentTick =
           (if 0 < tick then [Sleep td] else [])
           @ map playNote (filter (\<lambda>n. Note.Tick n = tick) notes)
           @ playSong_loop td (notesPerTick notes) stopped len (tick + 1) tick"
  using assms
  by (subst playSong_loop.simps) (auto simp: notesPerTick_played)

lemma playSong_loop_run:
  assumes "0 \<le> tick" "currentTick = (if tick = 0 then 0 else tick - 1)"
    and "\<forall>u. tick \<le> u \<and> u \<le> len \<longrightarrow> \<not> stopped u"
  shows "playSong_loop td (notesPerTick notes) stopped len tick currentTick =
           concat (map (\<lambda>t. (if 0 < t then [Sleep td] else [])
                             @ map playNote (filter (\<lambda>n. Note.Tick n = t) notes))
                       [tick..len])"
  using assms
proof (induction "nat (len + 1 - tick)" arbitrary: tick currentTick)
  case 0
  then have "\<not> tick \<le> len" by simp
  then show ?case
    by (subst playSong_loop.simps) simp
next
  case (Suc k)
  then have le: "tick \<le> len" by simp
  with Suc.prems have ns: "\<not> stopped tick" by simp
  have k: "k = nat (len + 1 - (tick + 1))" using Suc.hyps(2) by simp
  have rec: "playSong_loop td (notesPerTick notes) stopped len (tick + 1) tick =
      concat (map (\<lambda>t. (if 0 < t then [Sleep td] else [])
                             @ map playNote (filter (\<lambda>n. Note.Tick n = t) notes))
                       [tick + 1..len])"
    by (rule Suc.hyps(1) [OF k]) (use Suc.prems in auto)
  have up: "[tick..len] = tick # [tick + 1..len]"
    using le by (simp add: upto_rec1)
  have step: "playSong_loop td (notesPerTick notes) stopped len tick currentTick =
           (if 0 < tick then [Sleep td] else [])
           @ map playNote (filter (\<lambda>n. Note.Tick n = tick) notes)
           @ playSong_loop td (notesPerTick notes) stopped len (tick + 1) tick"
    using Suc.prems(1) le ns Suc.prems(2) by (rule playSong_loop_step)
  show ?case
    unfolding step rec up by simp
qed

text \<open>A stop seen at \<open>t\<close> leaves what a loop over the ticks before \<open>t\<close> does.\<close>

lemma playSong_loop_stopped:
  assumes "tick \<le> t" "t \<le> len" "stopped t"
    and "\<forall>u. tick \<le> u \<and> u < t \<longrightarrow> \<not> stopped u"
  shows "playSong_loop td perTick stopped len tick currentTick =
         playSong_loop td perTick no_stop (t - 1) tick currentTick"
  using assms
proof (induction "nat (t - tick)" arbitrary: tick currentTick)
  case 0
  then have "tick = t" by simp
  with 0 show ?case
    by (subst playSong_loop.simps, subst (2) playSong_loop.simps) simp
next
  case (Suc k)
  then have lt: "tick < t" by simp
  with Suc.prems have ns: "\<not> stopped tick" by simp
  have k: "k = nat (t - (tick + 1))" using Suc.hyps(2) by simp
  have rec: "playSong_loop td perTick stopped len (tick + 1) c =
             playSong_loop td perTick no_stop (t - 1) (tick + 1) c" for c
    by (rule Suc.hyps(1) [OF k]) (use Suc.prems lt in auto)
  show ?case
    using lt ns Suc.prems(2)
    by (subst playSong_loop.simps, subst (2) playSong_loop.simps)
      (simp add: rec no_stop_def)
qed

lemma ParseNBS_layers_keys:
  "ParseNBS_layers version tick layer allNotess bs = Inr (ns, r) \<Longrightarrow>
   \<forall>n \<in> set allNotess. Notes.Key n \<noteq> 0 \<Longrightarrow> \<forall>n \<in> set ns. Notes.Key n \<noteq> 0"
proof (induction "length bs" arbitrary: layer allNotess bs rule: less_induct)
  case less
  from ParseNBS_layers_unfold [OF less.prems(1)] show ?case
  proof (elim disjE exE conjE)
    assume "ns = allNotess"
    with less.prems(2) show ?thesis by simp
  next
    fix jumpLayers r1 instrument key velocity panning pitch r2
    assume r1: "readUint16 bs = Inr (jumpLayers, r1)"
      and r2: "readNoteFields version r1 = Inr ((instrument, key, velocity, panning, pitch), r2)"
      and rec: "ParseNBS_layers version tick (go_int (layer + uint jumpLayers))
         (if key = 0 then allNotess
          else allNotess @ [\<lparr>Notes.Tick = tick, Layer = go_int (layer + uint jumpLayers),
                 Instrument = instrument, Key = key, Velocity = velocity,
                 Panning = panning, Pitch = pitch\<rparr>]) r2 = Inr (ns, r)"
    have l: "length r2 < length bs"
      using readUint16_length [OF r1] readNoteFields_length [OF r2] by simp
    show ?thesis
      by (rule less.hyps [OF l rec]) (use less.prems(2) in auto)
  qed
qed

lemma ParseNBS_ticks_keys:
  "ParseNBS_ticks version tick allNotess bs = Inr (ns, r) \<Longrightarrow>
   \<forall>n \<in> set allNotess. Notes.Key n \<noteq> 0 \<Longrightarrow> \<forall>n \<in> set ns. Notes.Key n \<noteq> 0"
proof (induction "length bs" arbitrary: tick allNotess bs rule: less_induct)
  case less
  from ParseNBS_ticks_unfold [OF less.prems(1)] show ?case
  proof (elim disjE exE conjE)
    assume "ns = allNotess"
    with less.prems(2) show ?thesis by simp
  next
    fix jumpTicks r1 allNotess' r2
    assume r1: "readUint16 bs = Inr (jumpTicks, r1)"
      and lay: "ParseNBS_layers version (go_int (tick + uint jumpTicks)) (- 1) allNotess r1
        = Inr (allNotess', r2)"
      and rec: "ParseNBS_ticks version (go_int (tick + uint jumpTicks)) allNotess' r2 = Inr (ns, r)"
    have l: "length r2 < length bs"
      using readUint16_length [OF r1] ParseNBS_layers_length [OF lay] by simp
    from less.hyps [OF l rec ParseNBS_layers_keys [OF lay less.prems(2)]]
    show ?thesis .
  qed
qed

lemma ParseNBS_layers_skip:
  assumes "readUint16 bs = Inr (jumpLayers, r1)" "jumpLayers \<noteq> 0"
    and "readNoteFields version r1 = Inr ((instrument, 0, velocity, panning, pitch), r2)"
  shows "ParseNBS_layers version tick layer allNotess bs =
         ParseNBS_layers version tick (go_int (layer + uint jumpLayers)) allNotess r2"
  using assms by (subst ParseNBS_layers.simps) simp

lemma maxTick_foldl:
  "foldl (\<lambda>m n. if Notes.Tick n > m then Notes.Tick n else m) a ns =
     fold max (map Notes.Tick ns) a"
proof (induction ns arbitrary: a)
  case Nil
  show ?case by simp
next
  case (Cons n ns)
  have "(if Notes.Tick n > a then Notes.Tick n else a) = max (Notes.Tick n) a"
    by (simp add: max_def)
  then show ?case
    using Cons.IH [of "max (Notes.Tick n) a"] by simp
qed

lemma maxTick_Max:
  assumes "ns \<noteq> []"
  shows "maxTick ns = Max (Notes.Tick ` set ns)"
proof -
  from assms obtain n ns' where ns: "ns = n # ns'" by (cases ns) auto
  have "maxTick ns = fold max (map Notes.Tick ns) (Notes.Tick n)"
    unfolding maxTick_def maxTick_foldl by (simp add: ns)
  also have "\<dots> = fold max (map Notes.Tick ns') (Notes.Tick n)"
    by (simp add: ns)
  also have "\<dots> = Max (set (Notes.Tick n # map Notes.Tick ns'))"
    by (rule Max.set_eq_fold [symmetric])
  finally show ?thesis by (simp add: ns)
qed


text \<open>
  A file with declared length 0 and two notes, at ticks \<open>-1 + 65535 = 65534\<close> and
  \<open>65534 + 2 = 65536\<close>.
\<close>

definition long_example :: "byte list" where
  "long_example =
     example_header 0 0 3 @
     [255, 255, 1, 0, 7, 45, 0, 0, 2, 0, 1, 0, 7, 46, 0, 0, 0, 0]"

lemma ParseNBS_long_example:
  "ParseNBS long_example =
     Inr \<lparr>Version = 3, Length = 0, Layers = 1, TempoRaw = 1000,
          Notess = [\<lparr>Notes.Tick = 65534, Layer = 0, Instrument = 7, Key = 45,
                     Velocity = 100, Panning = 100, Pitch = 0\<rparr>,
                    \<lparr>Notes.Tick = 65536, Layer = 0, Instrument = 7, Key = 46,
                     Velocity = 100, Panning = 100, Pitch = 0\<rparr>]\<rparr>"
  by (simp add: long_example_def ParseNBS_example ParseNBS_ticks.simps ParseNBS_layers.simps
        readNoteFields_old go_int_def maxTick_def)

subsection \<open>The order of the decoded notes\<close>

lemma go_int_id: "- (2 ^ 63) \<le> x \<Longrightarrow> x < 2 ^ 63 \<Longrightarrow> go_int x = x"
  by (simp add: go_int_def)

lemma uint16_jump: "(j :: 16 word) \<noteq> 0 \<Longrightarrow> 1 \<le> uint j \<and> uint j \<le> 65535"
proof -
  assume "j \<noteq> 0"
  then have "uint j \<noteq> 0" by (simp add: uint_0_iff)
  moreover have "uint j < 65536" using uint_bounded [of j] by simp
  ultimately show ?thesis using uint_ge_0 [of j] by linarith
qed

text \<open>\<open>before a b\<close>: \<open>a\<close> has the earlier tick, or the same tick and the smaller
  layer.\<close>

definition before :: "Notes \<Rightarrow> Notes \<Rightarrow> bool" where
  "before a b \<longleftrightarrow>
     Notes.Tick a < Notes.Tick b \<or> (Notes.Tick a = Notes.Tick b \<and> Notes.Layer a < Notes.Layer b)"

lemma ParseNBS_layers_sorted:
  assumes "ParseNBS_layers version tick layer allNotess bs = Inr (ns, r)"
    and "sorted_wrt before allNotess"
    and "\<forall>n \<in> set allNotess. 0 \<le> Notes.Tick n \<and> 0 \<le> Notes.Layer n \<and>
           (Notes.Tick n < tick \<or> (Notes.Tick n = tick \<and> Notes.Layer n \<le> layer))"
    and "0 \<le> tick" "- 1 \<le> layer" "layer + 32768 * int (length bs) < 2 ^ 63"
  shows "sorted_wrt before ns \<and>
         (\<forall>n \<in> set ns. 0 \<le> Notes.Tick n \<and> 0 \<le> Notes.Layer n \<and> Notes.Tick n \<le> tick)"
  using assms
proof (induction "length bs" arbitrary: layer allNotess bs rule: less_induct)
  case less
  from ParseNBS_layers_unfold [OF less.prems(1)] show ?case
  proof (elim disjE exE conjE)
    assume "ns = allNotess"
    with less.prems(2,3) show ?thesis by auto
  next
    fix jumpLayers r1 instrument key velocity panning pitch r2
    assume r1: "readUint16 bs = Inr (jumpLayers, r1)" and j: "jumpLayers \<noteq> 0"
      and r2: "readNoteFields version r1 = Inr ((instrument, key, velocity, panning, pitch), r2)"
      and rec: "ParseNBS_layers version tick (go_int (layer + uint jumpLayers))
         (if key = 0 then allNotess
          else allNotess @ [\<lparr>Notes.Tick = tick, Layer = go_int (layer + uint jumpLayers),
                 Instrument = instrument, Key = key, Velocity = velocity,
                 Panning = panning, Pitch = pitch\<rparr>]) r2 = Inr (ns, r)"
    let ?layer' = "layer + uint jumpLayers"
    let ?acc = "(if key = 0 then allNotess
          else allNotess @ [\<lparr>Notes.Tick = tick, Layer = ?layer',
                 Instrument = instrument, Key = key, Velocity = velocity,
                 Panning = panning, Pitch = pitch\<rparr>])"
    have len: "length r2 + 4 \<le> length bs"
      using readUint16_length [OF r1] readNoteFields_length [OF r2] by simp
    have l: "length r2 < length bs" using len by simp
    have u: "1 \<le> uint jumpLayers \<and> uint jumpLayers \<le> 65535"
      using j by (rule uint16_jump)
    have g: "go_int ?layer' = ?layer'"
      using u less.prems(5,6) len by (intro go_int_id) auto
    have b: "?layer' + 32768 * int (length r2) < 2 ^ 63"
      using u less.prems(6) len by simp
    have s: "sorted_wrt before ?acc"
      using less.prems(2,3) u by (auto simp: sorted_wrt_append before_def)
    have a: "\<forall>n \<in> set ?acc. 0 \<le> Notes.Tick n \<and> 0 \<le> Notes.Layer n \<and>
           (Notes.Tick n < tick \<or> (Notes.Tick n = tick \<and> Notes.Layer n \<le> ?layer'))"
      using less.prems(3,4,5) u by auto
    have l': "- 1 \<le> ?layer'" using u less.prems(5) by simp
    from rec have rec': "ParseNBS_layers version tick ?layer' ?acc r2 = Inr (ns, r)"
      by (simp only: g)
    show ?thesis
      by (rule less.hyps [OF l rec' s a less.prems(4) l' b])
  qed
qed

lemma ParseNBS_ticks_sorted:
  assumes "ParseNBS_ticks version tick allNotess bs = Inr (ns, r)"
    and "sorted_wrt before allNotess"
    and "\<forall>n \<in> set allNotess. 0 \<le> Notes.Tick n \<and> 0 \<le> Notes.Layer n \<and> Notes.Tick n \<le> tick"
    and "- 1 \<le> tick" "tick + 32768 * int (length bs) < 2 ^ 63"
  shows "sorted_wrt before ns \<and> (\<forall>n \<in> set ns. 0 \<le> Notes.Tick n \<and> 0 \<le> Notes.Layer n)"
  using assms
proof (induction "length bs" arbitrary: tick allNotess bs rule: less_induct)
  case less
  from ParseNBS_ticks_unfold [OF less.prems(1)] show ?case
  proof (elim disjE exE conjE)
    assume "ns = allNotess"
    with less.prems(2,3) show ?thesis by auto
  next
    fix jumpTicks r1 allNotess' r2
    assume r1: "readUint16 bs = Inr (jumpTicks, r1)" and j: "jumpTicks \<noteq> 0"
      and lay: "ParseNBS_layers version (go_int (tick + uint jumpTicks)) (- 1) allNotess r1
        = Inr (allNotess', r2)"
      and rec: "ParseNBS_ticks version (go_int (tick + uint jumpTicks)) allNotess' r2 = Inr (ns, r)"
    let ?tick' = "tick + uint jumpTicks"
    have len1: "length r1 + 2 = length bs" using readUint16_length [OF r1] .
    have len2: "length r2 < length r1" using ParseNBS_layers_length [OF lay] .
    have l: "length r2 < length bs" using len1 len2 by simp
    have u: "1 \<le> uint jumpTicks \<and> uint jumpTicks \<le> 65535"
      using j by (rule uint16_jump)
    have g: "go_int ?tick' = ?tick'"
      using u less.prems(4,5) len1 by (intro go_int_id) auto
    have t0: "0 \<le> ?tick'" using u less.prems(4) by simp
    have a1: "\<forall>n \<in> set allNotess. 0 \<le> Notes.Tick n \<and> 0 \<le> Notes.Layer n \<and>
           (Notes.Tick n < ?tick' \<or> (Notes.Tick n = ?tick' \<and> Notes.Layer n \<le> - 1))"
      using less.prems(3) u by auto
    have b1: "- 1 + 32768 * int (length r1) < 2 ^ 63"
      using less.prems(4,5) len1 by simp
    from lay have lay': "ParseNBS_layers version ?tick' (- 1) allNotess r1 = Inr (allNotess', r2)"
      by (simp only: g)
    from ParseNBS_layers_sorted [OF lay' less.prems(2) a1 t0 _ b1]
    have s2: "sorted_wrt before allNotess'"
      and a2: "\<forall>n \<in> set allNotess'. 0 \<le> Notes.Tick n \<and> 0 \<le> Notes.Layer n \<and> Notes.Tick n \<le> ?tick'"
      by simp_all
    have b2: "?tick' + 32768 * int (length r2) < 2 ^ 63"
      using u less.prems(5) len1 len2 by simp
    from rec have rec': "ParseNBS_ticks version ?tick' allNotess' r2 = Inr (ns, r)"
      by (simp only: g)
    have t1: "- 1 \<le> ?tick'" using t0 by simp
    show ?thesis
      by (rule less.hyps [OF l rec' s2 a2 t1 b2])
  qed
qed


subsection \<open>Truncated input\<close>

text \<open>
  \<open>exactR p bs\<close>: when \<open>p\<close> succeeds on \<open>bs\<close>, it has read a prefix \<open>c\<close> of \<open>bs\<close>
  and returned the rest; it gives the same value on \<open>c\<close> followed by anything
  else, and it fails on \<open>c\<close> cut anywhere before its end.
\<close>

definition exactR :: "'a reader \<Rightarrow> byte list \<Rightarrow> bool" where
  "exactR p bs \<longleftrightarrow>
     (\<forall>v r. p bs = Inr (v, r) \<longrightarrow>
        (\<exists>c. bs = c @ r \<and> (\<forall>r'. p (c @ r') = Inr (v, r')) \<and>
             (\<forall>k < length c. \<exists>e. p (take k c) = Inl e)))"

lemma exactR_ReadFull: "exactR (ReadFull n) bs"
  unfolding exactR_def
proof (intro allI impI)
  fix v r
  assume "ReadFull n bs = Inr (v, r)"
  then have n: "n \<le> length bs" and v: "v = take n bs" and r: "r = drop n bs"
    by (auto simp: ReadFull_def split: if_splits)
  have "bs = v @ r" by (simp add: v r)
  moreover have "\<forall>r'. ReadFull n (v @ r') = Inr (v, r')"
    using n by (simp add: ReadFull_def v)
  moreover have "\<forall>k < length v. \<exists>e. ReadFull n (take k v) = Inl e"
    using n by (auto simp: ReadFull_def v)
  ultimately show "\<exists>c. bs = c @ r \<and> (\<forall>r'. ReadFull n (c @ r') = Inr (v, r')) \<and>
             (\<forall>k < length c. \<exists>e. ReadFull n (take k c) = Inl e)"
    by blast
qed

lemma exactR_returnR: "exactR (returnR v) bs"
  by (simp add: exactR_def returnR_def)

lemma exactR_bindR:
  assumes p: "exactR p bs"
    and f: "\<And>v r. p bs = Inr (v, r) \<Longrightarrow> exactR (f v) r"
  shows "exactR (bindR p f) bs"
  unfolding exactR_def
proof (intro allI impI)
  fix w r2
  assume "bindR p f bs = Inr (w, r2)"
  then obtain v r1 where pv: "p bs = Inr (v, r1)" and fv: "f v r1 = Inr (w, r2)"
    by (auto simp: bindR_Inr)
  from p pv obtain c1 where c1: "bs = c1 @ r1"
    and e1: "\<And>r'. p (c1 @ r') = Inr (v, r')"
    and t1: "\<And>k. k < length c1 \<Longrightarrow> \<exists>e. p (take k c1) = Inl e"
    unfolding exactR_def by blast
  from f [OF pv] fv obtain c2 where c2: "r1 = c2 @ r2"
    and e2: "\<And>r'. f v (c2 @ r') = Inr (w, r')"
    and t2: "\<And>k. k < length c2 \<Longrightarrow> \<exists>e. f v (take k c2) = Inl e"
    unfolding exactR_def by blast
  have "bs = (c1 @ c2) @ r2" by (simp add: c1 c2)
  moreover have "\<forall>r'. bindR p f ((c1 @ c2) @ r') = Inr (w, r')"
    by (simp add: bindR_def e1 e2)
  moreover have "\<forall>k < length (c1 @ c2). \<exists>e. bindR p f (take k (c1 @ c2)) = Inl e"
  proof (intro allI impI)
    fix k
    assume k: "k < length (c1 @ c2)"
    show "\<exists>e. bindR p f (take k (c1 @ c2)) = Inl e"
    proof (cases "k < length c1")
      case True
      with t1 [OF True] show ?thesis by (auto simp: bindR_def)
    next
      case False
      then have "take k (c1 @ c2) = c1 @ take (k - length c1) c2" by simp
      moreover have "k - length c1 < length c2" using k False by simp
      ultimately show ?thesis
        using t2 [of "k - length c1"] by (auto simp: bindR_def e1)
    qed
  qed
  ultimately show "\<exists>c. bs = c @ r2 \<and> (\<forall>r'. bindR p f (c @ r') = Inr (w, r')) \<and>
             (\<forall>k < length c. \<exists>e. bindR p f (take k c) = Inl e)"
    by blast
qed

lemma readUint8_bindR: "readUint8 = bindR (ReadFull 1) (\<lambda>b. returnR (b ! 0))"
  by (rule ext) (simp add: readUint8_def bindR_def returnR_def split: sum.splits)

lemma readUint16_bindR:
  "readUint16 = bindR (ReadFull 2) (\<lambda>b. returnR (ucast (b ! 0) OR push_bit 8 (ucast (b ! 1))))"
  by (rule ext) (simp add: readUint16_def bindR_def returnR_def split: sum.splits)

lemma readInt16_bindR:
  "readInt16 = bindR (ReadFull 2) (\<lambda>b. returnR (ucast (b ! 0) OR push_bit 8 (ucast (b ! 1))))"
  by (rule ext) (simp add: readInt16_def bindR_def returnR_def split: sum.splits)

lemma readUint32_bindR:
  "readUint32 = bindR (ReadFull 4) (\<lambda>b. returnR
     (ucast (b ! 0) OR push_bit 8 (ucast (b ! 1))
        OR push_bit 16 (ucast (b ! 2)) OR push_bit 24 (ucast (b ! 3))))"
  by (rule ext) (simp add: readUint32_def bindR_def returnR_def split: sum.splits)

lemma readString_bindR:
  "readString = bindR readUint32 (\<lambda>len.
     if len = 0 then returnR [] else bindR (ReadFull (unat len)) returnR)"
  by (rule ext) (simp add: readString_def bindR_def returnR_def split: sum.splits)

lemma exactR_readUint8: "exactR readUint8 bs"
  unfolding readUint8_bindR by (intro exactR_bindR exactR_ReadFull exactR_returnR)

lemma exactR_readUint16: "exactR readUint16 bs"
  unfolding readUint16_bindR by (intro exactR_bindR exactR_ReadFull exactR_returnR)

lemma exactR_readInt16: "exactR readInt16 bs"
  unfolding readInt16_bindR by (intro exactR_bindR exactR_ReadFull exactR_returnR)

lemma exactR_readUint32: "exactR readUint32 bs"
  unfolding readUint32_bindR by (intro exactR_bindR exactR_ReadFull exactR_returnR)

lemma exactR_if: "(c \<Longrightarrow> exactR p bs) \<Longrightarrow> (\<not> c \<Longrightarrow> exactR q bs) \<Longrightarrow> exactR (if c then p else q) bs"
  by simp

lemma exactR_readString: "exactR readString bs"
  unfolding readString_bindR
  by (intro exactR_bindR exactR_if exactR_ReadFull exactR_returnR exactR_readUint32)

lemma skipR_Suc_bindR: "skipR (Suc n) p = bindR p (\<lambda>_. skipR n p)"
  by (rule ext) (simp add: bindR_def split: sum.splits)

lemma exactR_skipR:
  assumes "\<And>bs. exactR p bs"
  shows "exactR (skipR n p) bs"
proof (induction n arbitrary: bs)
  case 0
  have "skipR 0 p = returnR ()" by (rule ext) (simp add: returnR_def)
  then show ?case by (simp add: exactR_returnR)
next
  case (Suc n)
  show ?case
    unfolding skipR_Suc_bindR by (intro exactR_bindR assms Suc.IH)
qed

lemmas exactR_readers =
  exactR_readUint8 exactR_readUint16 exactR_readInt16 exactR_readUint32 exactR_readString

lemma exactR_readNoteFields: "exactR (readNoteFields version) bs"
  unfolding readNoteFields_def
  by (intro exactR_bindR exactR_if exactR_returnR exactR_readers)

lemma exactR_ParseNBS_header: "exactR ParseNBS_header bs"
  unfolding ParseNBS_header_def
  by (intro exactR_bindR exactR_returnR exactR_skipR exactR_readers)

lemma ParseNBS_layers_bindR:
  "ParseNBS_layers version tick layer allNotess =
     bindR readUint16 (\<lambda>jumpLayers.
       if jumpLayers = 0 then returnR allNotess
       else bindR (readNoteFields version) (\<lambda>(instrument, key, velocity, panning, pitch).
         ParseNBS_layers version tick (go_int (layer + uint jumpLayers))
           (if key = 0 then allNotess
            else allNotess @
              [\<lparr>Notes.Tick = tick, Layer = go_int (layer + uint jumpLayers),
                Instrument = instrument, Key = key, Velocity = velocity,
                Panning = panning, Pitch = pitch\<rparr>])))"
  by (rule ext, subst ParseNBS_layers.simps)
    (simp add: bindR_def returnR_def split: sum.splits prod.splits)

lemma exactR_ParseNBS_layers: "exactR (ParseNBS_layers version tick layer allNotess) bs"
proof (induction "length bs" arbitrary: layer allNotess bs rule: less_induct)
  case less
  show ?case
  proof (subst ParseNBS_layers_bindR, intro exactR_bindR exactR_if exactR_returnR
      exactR_readUint16 exactR_readNoteFields)
    fix jumpLayers r1 x r2
    assume r1: "readUint16 bs = Inr (jumpLayers, r1)"
      and r2: "readNoteFields version r1 = Inr (x, r2)"
    have l: "length r2 < length bs"
      using readUint16_length [OF r1] readNoteFields_length [OF r2] by simp
    obtain instrument key velocity panning pitch where
      x: "x = (instrument, key, velocity, panning, pitch)" by (cases x) auto
    show "exactR (case x of (instrument, key, velocity, panning, pitch) \<Rightarrow>
         ParseNBS_layers version tick (go_int (layer + uint jumpLayers))
           (if key = 0 then allNotess
            else allNotess @
              [\<lparr>Notes.Tick = tick, Layer = go_int (layer + uint jumpLayers),
                Instrument = instrument, Key = key, Velocity = velocity,
                Panning = panning, Pitch = pitch\<rparr>])) r2"
      unfolding x prod.case by (rule less.hyps [OF l])
  qed
qed

lemma ParseNBS_ticks_bindR:
  "ParseNBS_ticks version tick allNotess =
     bindR readUint16 (\<lambda>jumpTicks.
       if jumpTicks = 0 then returnR allNotess
       else bindR (ParseNBS_layers version (go_int (tick + uint jumpTicks)) (- 1) allNotess)
              (\<lambda>allNotess'. ParseNBS_ticks version (go_int (tick + uint jumpTicks)) allNotess'))"
  by (rule ext, subst ParseNBS_ticks.simps)
    (simp add: bindR_def returnR_def Let_def split: sum.splits prod.splits)

lemma exactR_ParseNBS_ticks: "exactR (ParseNBS_ticks version tick allNotess) bs"
proof (induction "length bs" arbitrary: tick allNotess bs rule: less_induct)
  case less
  show ?case
  proof (subst ParseNBS_ticks_bindR, intro exactR_bindR exactR_if exactR_returnR
      exactR_readUint16 exactR_ParseNBS_layers)
    fix jumpTicks r1 allNotess' r2
    assume r1: "readUint16 bs = Inr (jumpTicks, r1)"
      and r2: "ParseNBS_layers version (go_int (tick + uint jumpTicks)) (- 1) allNotess r1
                 = Inr (allNotess', r2)"
    have l: "length r2 < length bs"
      using readUint16_length [OF r1] ParseNBS_layers_length [OF r2] by simp
    show "exactR (ParseNBS_ticks version (go_int (tick + uint jumpTicks)) allNotess') r2"
      by (rule less.hyps [OF l])
  qed
qed

lemma exactR_ParseNBS_reader: "exactR ParseNBS_reader bs"
  unfolding ParseNBS_reader_def
proof (intro exactR_bindR exactR_ParseNBS_header)
  fix h :: "16 word \<times> 8 word \<times> 16 word \<times> 16 word" and r :: "byte list"
  obtain len version layers tempoRaw where h: "h = (len, version, layers, tempoRaw)"
    by (cases h) auto
  show "exactR (case h of (len, version, layers, tempoRaw) \<Rightarrow>
     bindR (ParseNBS_ticks version (- 1) []) (\<lambda>allNotess.
     returnR \<lparr>Version = version,
              Length = (if len = 0 \<and> length allNotess > 0
                        then word_of_int (maxTick allNotess) else len),
              Layers = layers,
              TempoRaw = tempoRaw,
              Notess = allNotess\<rparr>)) r"
    unfolding h prod.case
    by (intro exactR_bindR exactR_ParseNBS_ticks exactR_returnR)
qed

lemma ParseNBS_reader_example:
  "ParseNBS_reader (example_header len0 len1 version @ r) =
     (case ParseNBS_ticks version (- 1) [] r of
        Inl err \<Rightarrow> Inl err
      | Inr (allNotess, rest) \<Rightarrow>
          Inr (\<lparr>Version = version,
               Length = (if ucast len0 OR push_bit 8 (ucast len1) = (0 :: 16 word)
                           \<and> length allNotess > 0
                         then word_of_int (maxTick allNotess)
                         else ucast len0 OR push_bit 8 (ucast len1)),
               Layers = 1, TempoRaw = 1000, Notess = allNotess\<rparr>, rest))"
  by (simp add: ParseNBS_reader_def bindR_def [of ParseNBS_header]
      ParseNBS_header_example bindR_def returnR_def split: sum.splits)

text \<open>A file of one note at tick 0 and layer 0, followed by two bytes that the
  decoder does not read; and a file of three notes on two ticks.\<close>

definition short_example :: "byte list" where
  "short_example = example_header 0 0 3 @ [1, 0, 1, 0, 7, 45, 0, 0, 0, 0, 9, 9]"

definition chord_example :: "byte list" where
  "chord_example =
     example_header 0 0 3 @
     [1, 0, 1, 0, 7, 45, 2, 0, 7, 46, 0, 0, 3, 0, 2, 0, 7, 47, 0, 0, 0, 0]"

lemma ParseNBS_reader_short_example:
  "ParseNBS_reader short_example =
     Inr (\<lparr>Version = 3, Length = 0, Layers = 1, TempoRaw = 1000,
           Notess = [\<lparr>Notes.Tick = 0, Layer = 0, Instrument = 7, Key = 45,
                      Velocity = 100, Panning = 100, Pitch = 0\<rparr>]\<rparr>, [9, 9])"
  by (simp add: short_example_def ParseNBS_reader_example ParseNBS_ticks.simps
      ParseNBS_layers.simps readNoteFields_old go_int_def maxTick_def)

lemma ParseNBS_chord_example:
  "ParseNBS chord_example =
     Inr \<lparr>Version = 3, Length = 3, Layers = 1, TempoRaw = 1000,
          Notess = [\<lparr>Notes.Tick = 0, Layer = 0, Instrument = 7, Key = 45,
                     Velocity = 100, Panning = 100, Pitch = 0\<rparr>,
                    \<lparr>Notes.Tick = 0, Layer = 2, Instrument = 7, Key = 46,
                     Velocity = 100, Panning = 100, Pitch = 0\<rparr>,
                    \<lparr>Notes.Tick = 3, Layer = 1, Instrument = 7, Key = 47,
                     Velocity = 100, Panning = 100, Pitch = 0\<rparr>]\<rparr>"
  by (simp add: chord_example_def ParseNBS_example ParseNBS_ticks.simps
      ParseNBS_layers.simps readNoteFields_old go_int_def maxTick_def)

subsection \<open>The note-block stream of the format\<close>

text \<open>
  The note-block stream as the format describes it, for the comparison with the
  decoder: a list of ticks, each with the two bytes of its jump and its entries; an
  entry has the two bytes of its layer jump, the instrument, the key, and the four
  bytes that only a version of 4 or more writes (velocity, panning, pitch).
\<close>

type_synonym spec_entry = "byte \<times> byte \<times> byte \<times> byte \<times> byte \<times> byte \<times> byte \<times> byte"
type_synonym spec_tick = "byte \<times> byte \<times> spec_entry list"

definition u16 :: "byte \<Rightarrow> byte \<Rightarrow> 16 word" where
  "u16 b0 b1 = ucast b0 OR push_bit 8 (ucast b1)"

definition entry_jump :: "spec_entry \<Rightarrow> int" where
  "entry_jump e = (case e of (j0, j1, rest) \<Rightarrow> uint (u16 j0 j1))"

definition tick_jump :: "spec_tick \<Rightarrow> int" where
  "tick_jump t = (case t of (t0, t1, es) \<Rightarrow> uint (u16 t0 t1))"

definition tick_entries :: "spec_tick \<Rightarrow> spec_entry list" where
  "tick_entries t = (case t of (t0, t1, es) \<Rightarrow> es)"

text \<open>The bytes of the stream: every list of entries and the list of ticks end
  with a jump of 0.\<close>

definition spec_entry_bytes :: "8 word \<Rightarrow> spec_entry \<Rightarrow> byte list" where
  "spec_entry_bytes version e =
     (case e of (j0, j1, instrument, key, velocity, panning, p0, p1) \<Rightarrow>
        [j0, j1, instrument, key] @
        (if version \<ge> 4 then [velocity, panning, p0, p1] else []))"

definition spec_layer_bytes :: "8 word \<Rightarrow> spec_entry list \<Rightarrow> byte list" where
  "spec_layer_bytes version es = concat (map (spec_entry_bytes version) es) @ [0, 0]"

definition spec_stream :: "8 word \<Rightarrow> spec_tick list \<Rightarrow> byte list" where
  "spec_stream version ts =
     concat (map (\<lambda>t. (case t of (t0, t1, es) \<Rightarrow> [t0, t1] @ spec_layer_bytes version es)) ts)
     @ [0, 0]"

text \<open>
  The notes the format assigns to the stream: the tick of the \<open>i\<close>-th tick is \<open>-1\<close>
  plus the sum of the tick jumps up to it, the layer of the \<open>i\<close>-th entry of a tick
  is \<open>-1\<close> plus the sum of the layer jumps of that tick up to it, and an entry with
  key 0 gives no note.
\<close>

definition spec_note :: "8 word \<Rightarrow> int \<Rightarrow> int \<Rightarrow> spec_entry \<Rightarrow> Notes list" where
  "spec_note version tick layer e =
     (case e of (j0, j1, instrument, key, velocity, panning, p0, p1) \<Rightarrow>
        if key = 0 then []
        else [\<lparr>Notes.Tick = tick, Layer = layer, Instrument = instrument, Key = key,
               Velocity = (if version \<ge> 4 then velocity else 100),
               Panning = (if version \<ge> 4 then panning else 100),
               Pitch = (if version \<ge> 4 then u16 p0 p1 else 0)\<rparr>])"

definition spec_layer_notes :: "8 word \<Rightarrow> int \<Rightarrow> spec_entry list \<Rightarrow> Notes list" where
  "spec_layer_notes version tick es =
     concat (map (\<lambda>i. spec_note version tick
                          (- 1 + sum_list (map entry_jump (take (Suc i) es))) (es ! i))
                 [0..<length es])"

definition spec_notes :: "8 word \<Rightarrow> spec_tick list \<Rightarrow> Notes list" where
  "spec_notes version ts =
     concat (map (\<lambda>i. spec_layer_notes version
                          (- 1 + sum_list (map tick_jump (take (Suc i) ts)))
                          (tick_entries (ts ! i)))
                 [0..<length ts])"

lemma readUint16_u16: "readUint16 (b0 # b1 # r) = Inr (u16 b0 b1, r)"
  by (simp add: u16_def)

lemma readNoteFields_entry:
  "readNoteFields version
     (instrument # key # (if version \<ge> 4 then [velocity, panning, p0, p1] else []) @ r) =
   Inr ((instrument, key, (if version \<ge> 4 then velocity else 100),
         (if version \<ge> 4 then panning else 100),
         (if version \<ge> 4 then u16 p0 p1 else 0)), r)"
  by (simp add: readNoteFields_Cons readNoteFields_old u16_def)

lemma ParseNBS_layers_spec:
  assumes "\<forall>e \<in> set es. entry_jump e \<noteq> 0"
    and "- 1 \<le> layer" "layer + 65535 * int (length es) < 2 ^ 63"
  shows "ParseNBS_layers version tick layer allNotess (spec_layer_bytes version es @ rest) =
         Inr (allNotess @
              concat (map (\<lambda>i. spec_note version tick
                          (layer + sum_list (map entry_jump (take (Suc i) es))) (es ! i))
                 [0..<length es]), rest)"
  using assms
proof (induction es arbitrary: layer allNotess)
  case Nil
  show ?case
    by (subst ParseNBS_layers.simps) (simp add: spec_layer_bytes_def)
next
  case (Cons e es)
  obtain j0 j1 instrument key velocity panning p0 p1 where
    e: "e = (j0, j1, instrument, key, velocity, panning, p0, p1)"
    by (cases e) auto
  let ?j = "u16 j0 j1"
  have j0: "?j \<noteq> 0"
    using Cons.prems(1) by (auto simp: e entry_jump_def uint_0_iff)
  have u: "1 \<le> uint ?j \<and> uint ?j \<le> 65535" using j0 by (rule uint16_jump)
  have g: "go_int (layer + uint ?j) = layer + uint ?j"
    using u Cons.prems(2,3) by (intro go_int_id) auto
  have ej: "entry_jump e = uint ?j" by (simp add: e entry_jump_def)
  have bytes: "spec_layer_bytes version (e # es) @ rest =
      j0 # j1 # instrument # key #
        (if version \<ge> 4 then [velocity, panning, p0, p1] else []) @
        (spec_layer_bytes version es @ rest)"
    by (simp add: spec_layer_bytes_def spec_entry_bytes_def e)
  have ih: "ParseNBS_layers version tick (layer + uint ?j) acc
              (spec_layer_bytes version es @ rest) =
         Inr (acc @
              concat (map (\<lambda>i. spec_note version tick
                          ((layer + uint ?j) + sum_list (map entry_jump (take (Suc i) es)))
                          (es ! i))
                 [0..<length es]), rest)" for acc
    by (rule Cons.IH) (use Cons.prems u in auto)
  have step: "ParseNBS_layers version tick layer allNotess
                (spec_layer_bytes version (e # es) @ rest) =
              ParseNBS_layers version tick (layer + uint ?j)
                (allNotess @ spec_note version tick (layer + uint ?j) e)
                (spec_layer_bytes version es @ rest)"
    unfolding bytes
    by (subst ParseNBS_layers.simps)
      (simp add: readUint16_u16 readNoteFields_entry j0 g spec_note_def e
        del: readUint16_Cons)
  show ?case
    unfolding step ih
    by (simp add: map_upt_Suc ej add.assoc del: upt_Suc)
qed

lemma ParseNBS_ticks_spec:
  assumes "\<forall>t \<in> set ts. tick_jump t \<noteq> 0 \<and> (\<forall>e \<in> set (tick_entries t). entry_jump e \<noteq> 0) \<and>
             int (length (tick_entries t)) < 2 ^ 47"
    and "- 1 \<le> tick" "tick + 65535 * int (length ts) < 2 ^ 63"
  shows "ParseNBS_ticks version tick allNotess (spec_stream version ts @ rest) =
         Inr (allNotess @
              concat (map (\<lambda>i. spec_layer_notes version
                          (tick + sum_list (map tick_jump (take (Suc i) ts)))
                          (tick_entries (ts ! i)))
                 [0..<length ts]), rest)"
  using assms
proof (induction ts arbitrary: tick allNotess)
  case Nil
  show ?case
    by (subst ParseNBS_ticks.simps) (simp add: spec_stream_def)
next
  case (Cons t ts)
  obtain t0 t1 es where t: "t = (t0, t1, es)" by (cases t) auto
  let ?j = "u16 t0 t1"
  have j0: "?j \<noteq> 0"
    using Cons.prems(1) by (auto simp: t tick_jump_def uint_0_iff)
  have u: "1 \<le> uint ?j \<and> uint ?j \<le> 65535" using j0 by (rule uint16_jump)
  have g: "go_int (tick + uint ?j) = tick + uint ?j"
    using u Cons.prems(2,3) by (intro go_int_id) auto
  have tj: "tick_jump t = uint ?j" and te: "tick_entries t = es"
    by (simp_all add: t tick_jump_def tick_entries_def)
  have es: "\<forall>e \<in> set es. entry_jump e \<noteq> 0" and les: "int (length es) < 2 ^ 47"
    using Cons.prems(1) by (auto simp: te [symmetric])
  have bytes: "spec_stream version (t # ts) @ rest =
      t0 # t1 # spec_layer_bytes version es @ (spec_stream version ts @ rest)"
    by (simp add: spec_stream_def t)
  have lay: "ParseNBS_layers version (tick + uint ?j) (- 1) allNotess
               (spec_layer_bytes version es @ (spec_stream version ts @ rest)) =
             Inr (allNotess @ spec_layer_notes version (tick + uint ?j) es,
                  spec_stream version ts @ rest)"
    unfolding spec_layer_notes_def
    by (rule ParseNBS_layers_spec [OF es]) (use les in auto)
  have ih: "ParseNBS_ticks version (tick + uint ?j) acc (spec_stream version ts @ rest) =
         Inr (acc @
              concat (map (\<lambda>i. spec_layer_notes version
                          ((tick + uint ?j) + sum_list (map tick_jump (take (Suc i) ts)))
                          (tick_entries (ts ! i)))
                 [0..<length ts]), rest)" for acc
    by (rule Cons.IH) (use Cons.prems u in auto)
  have step: "ParseNBS_ticks version tick allNotess (spec_stream version (t # ts) @ rest) =
              ParseNBS_ticks version (tick + uint ?j)
                (allNotess @ spec_layer_notes version (tick + uint ?j) es)
                (spec_stream version ts @ rest)"
    unfolding bytes
    by (subst ParseNBS_ticks.simps)
      (simp add: readUint16_u16 j0 g lay Let_def del: readUint16_Cons)
  show ?case
    unfolding step ih
    by (simp add: map_upt_Suc tj te add.assoc del: upt_Suc)
qed

lemma ParseNBS_after_header:
  assumes "ParseNBS_header file = Inr ((len, version, layers, tempoRaw), r0)"
    and "ParseNBS_ticks version (- 1) [] r0 = Inr (allNotess, rest)"
  shows "ParseNBS file =
           Inr \<lparr>Version = version,
                Length = (if len = 0 \<and> length allNotess > 0
                          then word_of_int (maxTick allNotess) else len),
                Layers = layers, TempoRaw = tempoRaw, Notess = allNotess\<rparr>"
  using assms by (simp add: ParseNBS_def ParseNBS_reader_def bindR_def returnR_def)

text \<open>The stream of the example: tick jumps 3 and 2; the first tick has one
  entry, with layer jump 1, the second has two, with layer jumps 1 and 2.\<close>

definition claim_stream :: "spec_tick list" where
  "claim_stream =
     [(3, 0, [(1, 0, 7, 45, 0, 0, 0, 0)]),
      (2, 0, [(1, 0, 7, 46, 0, 0, 0, 0), (2, 0, 7, 47, 0, 0, 0, 0)])]"

text \<open>What \<open>stopSong\<close> does on its own: its boolean tells whether the registry had
  an entry for the handle, and afterwards there is none.\<close>

lemma stopSong_entry:
  "fst (stopSong eh s) = (stopPlayer s eh \<noteq> None) \<and>
   stopPlayer (snd (stopSong eh s)) eh = None"
  by (auto simp: stopSong_def trySend_def split: option.splits)

section \<open>The claims\<close>

text \<open>Example data: a song with events at ticks 0, 0 and 5, and an empty registry.\<close>

definition example_song :: Song where
  "example_song =
     \<lparr>Song.Length = 5,
      Notes =
        [\<lparr>Note.Tick = 0, Layer = 0, Instrument = 0, Key = 45, Velocity = 100,
           Panning = 100, Pitch = 0\<rparr>,
         \<lparr>Note.Tick = 0, Layer = 1, Instrument = 1, Key = 46, Velocity = 100,
           Panning = 100, Pitch = 0\<rparr>,
         \<lparr>Note.Tick = 5, Layer = 0, Instrument = 2, Key = 47, Velocity = 100,
           Panning = 100, Pitch = 0\<rparr>]\<rparr>"

definition empty_registry :: registry where
  "empty_registry = \<lparr>stopPlayer = Map.empty, full = (\<lambda>ch. False), made = 0\<rparr>"

definition after_two_plays :: registry where
  "after_two_plays = snd (playSong_register 7 (snd (playSong_register 7 empty_registry)))"

lemmas example_eval =
  playSong_def example_song_def notesPerTick_def playSong_loop.simps playNote_def
  instrumentSounds_def pitchKey_def no_stop_def stop_at_def

subsection \<open>C1: cancellation and the completion notice\<close>

text \<open>
  C1 as stated fails: with a tick duration of 50 ms and the stop seen at the top of
  the iteration for tick 2, the song with events at ticks 0, 0 and 5 plays its two
  notes of tick 0, sleeps once, leaves the loop, and then the deferred function
  sends the completion notice all the same.
\<close>

theorem C1_notice_sent_on_cancel:
  "playSong 50000000 example_song (stop_at 2) =
     [PlaySoundSelf Piano 12, PlaySoundSelf BassDrum 13, Sleep 50000000,
      Message ''Song playback finished.'', DeleteEntry]"
  by (simp add: example_eval)

text \<open>
  C1, amended: when the stop is seen at the top of the iteration for tick \<open>t\<close> (and
  at no earlier tick), the loop ends there, and the playback does exactly what a
  playback never stopped does on the ticks \<open>0 .. t - 1\<close>: nothing of tick \<open>t\<close> or of a
  later tick is slept or played, and the completion notice and the removal of the
  registry entry follow as they do after the last tick.
\<close>

theorem C1_cancel_ends_loop_notice_follows:
  assumes "0 \<le> t" "t \<le> Song.Length song" "stopped t"
    and "\<forall>u. 0 \<le> u \<and> u < t \<longrightarrow> \<not> stopped u"
  shows "playSong tickDuration song stopped =
           playSong_loop tickDuration (notesPerTick (Notes song)) no_stop (t - 1) 0 0
           @ [Message ''Song playback finished.'', DeleteEntry]"
  using playSong_loop_stopped [OF assms]
  by (simp add: playSong_def)

theorem C1_cancel_ends_loop_notice_follows_witness:
  "playSong 50000000 example_song (stop_at 1) =
     [PlaySoundSelf Piano 12, PlaySoundSelf BassDrum 13,
      Message ''Song playback finished.'', DeleteEntry]"
proof -
  have "playSong 50000000 example_song (stop_at 1) =
           playSong_loop 50000000 (notesPerTick (Notes example_song)) no_stop (1 - 1) 0 0
           @ [Message ''Song playback finished.'', DeleteEntry]"
    by (rule C1_cancel_ends_loop_notice_follows) (simp_all add: example_song_def stop_at_def)
  then show ?thesis
    by (simp add: example_eval)
qed

subsection \<open>C2: the sleep before a tick\<close>

text \<open>
  C2 as stated fails: the loop visits every tick, so for the song with events at
  ticks 0, 0 and 5 and a tick duration of 50 ms there are five sleeps of 50 ms
  before the third note, not one sleep of 250 ms.
\<close>

theorem C2_five_sleeps_not_one:
  "playSong 50000000 example_song no_stop =
     [PlaySoundSelf Piano 12, PlaySoundSelf BassDrum 13,
      Sleep 50000000, Sleep 50000000, Sleep 50000000, Sleep 50000000, Sleep 50000000,
      PlaySoundSelf Snare 14, Message ''Song playback finished.'', DeleteEntry]"
  by (simp add: example_eval)

text \<open>
  C2, amended: a playback that is never stopped goes through every tick from 0 to
  the length, with or without notes; at tick 0 it plays the notes of tick 0 without
  sleeping first, and at every later tick it sleeps exactly one tick duration and
  then plays the notes of that tick, in the order of the song.
\<close>

theorem C2_one_tick_sleep_per_iteration:
  "playSong tickDuration song no_stop =
     concat (map (\<lambda>t. (if 0 < t then [Sleep tickDuration] else [])
                       @ map playNote (filter (\<lambda>n. Note.Tick n = t) (Notes song)))
                 [0..Song.Length song])
     @ [Message ''Song playback finished.'', DeleteEntry]"
proof -
  have "playSong_loop tickDuration (notesPerTick (Notes song)) no_stop (Song.Length song) 0 0 =
     concat (map (\<lambda>t. (if 0 < t then [Sleep tickDuration] else [])
                       @ map playNote (filter (\<lambda>n. Note.Tick n = t) (Notes song)))
                 [0..Song.Length song])"
    by (rule playSong_loop_run) (simp_all add: no_stop_def)
  then show ?thesis by (simp add: playSong_def)
qed

theorem C2_one_tick_sleep_per_iteration_witness:
  "playSong 20000000 (example_song\<lparr>Song.Length := 2\<rparr>) no_stop =
     [PlaySoundSelf Piano 12, PlaySoundSelf BassDrum 13, Sleep 20000000, Sleep 20000000,
      Message ''Song playback finished.'', DeleteEntry]"
  using C2_one_tick_sleep_per_iteration [of 20000000 "example_song\<lparr>Song.Length := 2\<rparr>"]
  by (simp add: example_song_def upto_rec1 playNote_def instrumentSounds_def pitchKey_def)

subsection \<open>C3: tick and layer deltas\<close>

text \<open>
  C3: \<open>ParseNBS\<close> decodes the note blocks as the format lays them out. Let the
  bytes after the header be the stream of a list of ticks, every tick jump and every
  layer jump other than 0 (0 is the end mark of the entries of a tick and of the
  ticks), with fewer than \<open>2 ^ 47\<close> ticks and entries per tick. Then \<open>ParseNBS\<close>
  succeeds and its notes are those of \<open>spec_notes\<close>: the \<open>i\<close>-th tick is at \<open>-1\<close>
  plus the sum of the tick jumps up to it, and in it the \<open>i\<close>-th entry is at layer
  \<open>-1\<close> plus the sum of its layer jumps up to it. For the tick jumps 3, 2, 0 and the
  layer jumps 1, 0 in the first tick, that is one note of the first tick, at tick
  \<open>-1 + 3 = 2\<close> and layer \<open>-1 + 1 = 0\<close>, and the notes of the second tick at tick 4.
\<close>

theorem C3_cumulative_offsets:
  assumes "ParseNBS_header file = Inr ((len, version, layers, tempoRaw),
             spec_stream version ts @ rest)"
    and "\<forall>t \<in> set ts. tick_jump t \<noteq> 0 \<and> (\<forall>e \<in> set (tick_entries t). entry_jump e \<noteq> 0) \<and>
             int (length (tick_entries t)) < 2 ^ 47"
    and "int (length ts) < 2 ^ 47"
  shows "\<exists>d. ParseNBS file = Inr d \<and> Notess d = spec_notes version ts"
proof -
  have "ParseNBS_ticks version (- 1) [] (spec_stream version ts @ rest) =
          Inr ([] @ spec_notes version ts, rest)"
    unfolding spec_notes_def
    by (rule ParseNBS_ticks_spec [OF assms(2)]) (use assms(3) in auto)
  then have "ParseNBS_ticks version (- 1) [] (spec_stream version ts @ rest) =
          Inr (spec_notes version ts, rest)" by simp
  from ParseNBS_after_header [OF assms(1) this] show ?thesis by simp
qed

text \<open>The witness: the stream of the example after \<open>example_header\<close>, with two
  entries in the second tick.\<close>

theorem C3_cumulative_offsets_witness:
  "\<exists>d. ParseNBS (example_header 0 0 3 @
            [3, 0, 1, 0, 7, 45, 0, 0, 2, 0, 1, 0, 7, 46, 2, 0, 7, 47, 0, 0, 0, 0]) = Inr d \<and>
       Notess d =
         [\<lparr>Notes.Tick = 2, Layer = 0, Instrument = 7, Key = 45,
            Velocity = 100, Panning = 100, Pitch = 0\<rparr>,
          \<lparr>Notes.Tick = 4, Layer = 0, Instrument = 7, Key = 46,
            Velocity = 100, Panning = 100, Pitch = 0\<rparr>,
          \<lparr>Notes.Tick = 4, Layer = 2, Instrument = 7, Key = 47,
            Velocity = 100, Panning = 100, Pitch = 0\<rparr>]"
proof -
  have s: "spec_stream 3 claim_stream @ [] =
      [3, 0, 1, 0, 7, 45, 0, 0, 2, 0, 1, 0, 7, 46, 2, 0, 7, 47, 0, 0, 0, 0]"
    by (simp add: spec_stream_def claim_stream_def spec_layer_bytes_def spec_entry_bytes_def)
  have h: "ParseNBS_header (example_header 0 0 3 @
            [3, 0, 1, 0, 7, 45, 0, 0, 2, 0, 1, 0, 7, 46, 2, 0, 7, 47, 0, 0, 0, 0]) =
        Inr ((0, 3, 1, 1000), spec_stream 3 claim_stream @ [])"
    unfolding s by (simp add: ParseNBS_header_example)
  have w: "\<forall>t \<in> set claim_stream. tick_jump t \<noteq> 0 \<and>
             (\<forall>e \<in> set (tick_entries t). entry_jump e \<noteq> 0) \<and>
             int (length (tick_entries t)) < 2 ^ 47"
    by (auto simp: claim_stream_def tick_jump_def tick_entries_def entry_jump_def u16_def)
  have l: "int (length claim_stream) < 2 ^ 47"
    by (simp add: claim_stream_def)
  have n: "spec_notes 3 claim_stream =
         [\<lparr>Notes.Tick = 2, Layer = 0, Instrument = 7, Key = 45,
            Velocity = 100, Panning = 100, Pitch = 0\<rparr>,
          \<lparr>Notes.Tick = 4, Layer = 0, Instrument = 7, Key = 46,
            Velocity = 100, Panning = 100, Pitch = 0\<rparr>,
          \<lparr>Notes.Tick = 4, Layer = 2, Instrument = 7, Key = 47,
            Velocity = 100, Panning = 100, Pitch = 0\<rparr>]"
    by (simp add: spec_notes_def spec_layer_notes_def spec_note_def claim_stream_def
        tick_jump_def tick_entries_def entry_jump_def u16_def upt_rec)
  from C3_cumulative_offsets [OF h w l] show ?thesis
    unfolding n .
qed

subsection \<open>C4: no note with key 0\<close>

text \<open>
  C4: no note of a decoded file has key 0; and an entry of the stream read with key
  0 adds no note: the layer loop goes on after it with the new layer and the same
  notes.
\<close>

theorem C4_no_key_zero:
  "(ParseNBS file = Inr d \<longrightarrow> (\<forall>n \<in> set (Notess d). Notes.Key n \<noteq> 0)) \<and>
   (readUint16 bs = Inr (jumpLayers, r1) \<and> jumpLayers \<noteq> 0 \<and>
    readNoteFields version r1 = Inr ((instrument, 0, velocity, panning, pitch), r2) \<longrightarrow>
      ParseNBS_layers version tick layer allNotess bs =
      ParseNBS_layers version tick (go_int (layer + uint jumpLayers)) allNotess r2)"
proof (intro conjI impI)
  assume "ParseNBS file = Inr d"
  from ParseNBS_unfold [OF this] obtain r0 rest where
    "ParseNBS_ticks (Version d) (- 1) [] r0 = Inr (Notess d, rest)" by blast
  from ParseNBS_ticks_keys [OF this] show "\<forall>n \<in> set (Notess d). Notes.Key n \<noteq> 0" by simp
next
  assume "readUint16 bs = Inr (jumpLayers, r1) \<and> jumpLayers \<noteq> 0 \<and>
    readNoteFields version r1 = Inr ((instrument, 0, velocity, panning, pitch), r2)"
  then show "ParseNBS_layers version tick layer allNotess bs =
      ParseNBS_layers version tick (go_int (layer + uint jumpLayers)) allNotess r2"
    by (simp add: ParseNBS_layers_skip)
qed

text \<open>The witness: a file whose only tick has an entry with key 0 at layer 0 and a
  note with key 45 at layer 2.\<close>

theorem C4_no_key_zero_witness:
  "ParseNBS (example_header 0 0 3 @ [1, 0, 1, 0, 7, 0, 2, 0, 7, 45, 0, 0, 0, 0]) =
     Inr \<lparr>Version = 3, Length = 0, Layers = 1, TempoRaw = 1000,
          Notess = [\<lparr>Notes.Tick = 0, Layer = 2, Instrument = 7, Key = 45,
                     Velocity = 100, Panning = 100, Pitch = 0\<rparr>]\<rparr> \<and>
   list_all (\<lambda>n. Notes.Key n \<noteq> 0)
     [\<lparr>Notes.Tick = 0, Layer = 2, Instrument = 7, Key = 45,
       Velocity = 100, Panning = 100, Pitch = 0\<rparr>] \<and>
   ParseNBS_layers 3 0 (- 1) [] [1, 0, 7, 0, 2, 0, 7, 45, 0, 0] =
   ParseNBS_layers 3 0 0 [] [2, 0, 7, 45, 0, 0]"
proof -
  have e: "ParseNBS (example_header 0 0 3 @ [1, 0, 1, 0, 7, 0, 2, 0, 7, 45, 0, 0, 0, 0]) =
     Inr \<lparr>Version = 3, Length = 0, Layers = 1, TempoRaw = 1000,
          Notess = [\<lparr>Notes.Tick = 0, Layer = 2, Instrument = 7, Key = 45,
                     Velocity = 100, Panning = 100, Pitch = 0\<rparr>]\<rparr>"
    by (simp add: ParseNBS_example ParseNBS_ticks.simps ParseNBS_layers.simps
        readNoteFields_old go_int_def maxTick_def)
  show ?thesis
    using e C4_no_key_zero [of "example_header 0 0 3 @ [1, 0, 1, 0, 7, 0, 2, 0, 7, 45, 0, 0, 0, 0]"
        "\<lparr>Version = 3, Length = 0, Layers = 1, TempoRaw = 1000,
          Notess = [\<lparr>Notes.Tick = 0, Layer = 2, Instrument = 7, Key = 45,
                     Velocity = 100, Panning = 100, Pitch = 0\<rparr>]\<rparr>"
        "[1, 0, 7, 0, 2, 0, 7, 45, 0, 0]" 1 "[7, 0, 2, 0, 7, 45, 0, 0]" 3 7 100 100 0
        "[2, 0, 7, 45, 0, 0]" 0 "- 1" "[]"]
    by (simp add: readNoteFields_old go_int_def)
qed

subsection \<open>C5: the length when the header declares 0\<close>

text \<open>
  C5 as stated fails: the file \<open>long_example\<close> declares length 0 and decodes to two
  notes, the later at tick 65536, and the length of the result is 0, not 65536.
\<close>

theorem C5_length_not_max_tick:
  "ParseNBS long_example =
     Inr \<lparr>Version = 3, Length = 0, Layers = 1, TempoRaw = 1000,
          Notess = [\<lparr>Notes.Tick = 65534, Layer = 0, Instrument = 7, Key = 45,
                     Velocity = 100, Panning = 100, Pitch = 0\<rparr>,
                    \<lparr>Notes.Tick = 65536, Layer = 0, Instrument = 7, Key = 46,
                     Velocity = 100, Panning = 100, Pitch = 0\<rparr>]\<rparr>"
  by (rule ParseNBS_long_example)

text \<open>
  C5, amended: when the header declares length 0 and the decoder has produced a
  note, the length of the result is the low 16 bits of the largest tick of a note
  (the largest tick itself as long as that is below 65536: ticks 5, 7 and 12 give
  12); in every other case it is the declared length.
\<close>

theorem C5_length_inference:
  assumes "ParseNBS file = Inr d"
    and "ParseNBS_header file = Inr ((len, version, layers, tempoRaw), r0)"
  shows "NBSData.Length d =
           (if len = 0 \<and> Notess d \<noteq> []
            then word_of_int (Max (Notes.Tick ` set (Notess d))) else len)"
proof -
  from ParseNBS_unfold [OF assms(1)] obtain len' r0' where
    h: "ParseNBS_header file = Inr ((len', Version d, Layers d, TempoRaw d), r0')" and
    l: "NBSData.Length d = (if len' = 0 \<and> length (Notess d) > 0
                 then word_of_int (maxTick (Notess d)) else len')"
    by blast
  from h assms(2) have "len' = len" by simp
  with l show ?thesis by (simp add: maxTick_Max)
qed

theorem C5_length_inference_witness:
  "NBSData.Length
     \<lparr>Version = 3, Length = 12, Layers = 1, TempoRaw = 1000,
      Notess = [\<lparr>Notes.Tick = 5, Layer = 0, Instrument = 7, Key = 45,
                 Velocity = 100, Panning = 100, Pitch = 0\<rparr>,
                \<lparr>Notes.Tick = 7, Layer = 0, Instrument = 7, Key = 46,
                 Velocity = 100, Panning = 100, Pitch = 0\<rparr>,
                \<lparr>Notes.Tick = 12, Layer = 0, Instrument = 7, Key = 47,
                 Velocity = 100, Panning = 100, Pitch = 0\<rparr>]\<rparr> = 12 \<and>
   ParseNBS (example_header 0 0 3 @
      [6, 0, 1, 0, 7, 45, 0, 0, 2, 0, 1, 0, 7, 46, 0, 0, 5, 0, 1, 0, 7, 47, 0, 0, 0, 0]) =
   Inr \<lparr>Version = 3, Length = 12, Layers = 1, TempoRaw = 1000,
      Notess = [\<lparr>Notes.Tick = 5, Layer = 0, Instrument = 7, Key = 45,
                 Velocity = 100, Panning = 100, Pitch = 0\<rparr>,
                \<lparr>Notes.Tick = 7, Layer = 0, Instrument = 7, Key = 46,
                 Velocity = 100, Panning = 100, Pitch = 0\<rparr>,
                \<lparr>Notes.Tick = 12, Layer = 0, Instrument = 7, Key = 47,
                 Velocity = 100, Panning = 100, Pitch = 0\<rparr>]\<rparr>"
proof -
  let ?file = "example_header 0 0 3 @
      [6, 0, 1, 0, 7, 45, 0, 0, 2, 0, 1, 0, 7, 46, 0, 0, 5, 0, 1, 0, 7, 47, 0, 0, 0, 0]"
  have e: "ParseNBS ?file =
   Inr \<lparr>Version = 3, Length = 12, Layers = 1, TempoRaw = 1000,
      Notess = [\<lparr>Notes.Tick = 5, Layer = 0, Instrument = 7, Key = 45,
                 Velocity = 100, Panning = 100, Pitch = 0\<rparr>,
                \<lparr>Notes.Tick = 7, Layer = 0, Instrument = 7, Key = 46,
                 Velocity = 100, Panning = 100, Pitch = 0\<rparr>,
                \<lparr>Notes.Tick = 12, Layer = 0, Instrument = 7, Key = 47,
                 Velocity = 100, Panning = 100, Pitch = 0\<rparr>]\<rparr>"
    by (simp add: ParseNBS_example ParseNBS_ticks.simps ParseNBS_layers.simps
        readNoteFields_old go_int_def maxTick_def)
  have h: "ParseNBS_header ?file = Inr ((0, 3, 1, 1000),
      [6, 0, 1, 0, 7, 45, 0, 0, 2, 0, 1, 0, 7, 46, 0, 0, 5, 0, 1, 0, 7, 47, 0, 0, 0, 0])"
    by (simp add: ParseNBS_header_example)
  from C5_length_inference [OF e h] e show ?thesis by simp
qed

subsection \<open>C6: the fields of version 4\<close>

text \<open>
  C6: an entry of the layer loop (a layer jump other than 0, then the instrument
  and the key) is followed, for a version of 4 or more, by the velocity, the
  panning and the two bytes of the pitch, which are read into the note; for a
  smaller version nothing more is read, the note has velocity 100, panning 100 and
  pitch 0, and the same bytes are left in the stream for the next read.
\<close>

theorem C6_version_gating:
  assumes "(jumpLayers :: 16 word) = ucast j0 OR push_bit 8 (ucast j1)" "jumpLayers \<noteq> 0"
    and "layer' = go_int (layer + uint jumpLayers)"
  shows "ParseNBS_layers version tick layer allNotess
           (j0 # j1 # instrument # key # velocity # panning # p0 # p1 # rest) =
         (if version \<ge> 4
          then ParseNBS_layers version tick layer'
                 (if key = 0 then allNotess
                  else allNotess @
                    [\<lparr>Notes.Tick = tick, Layer = layer', Instrument = instrument, Key = key,
                      Velocity = velocity, Panning = panning,
                      Pitch = ucast p0 OR push_bit 8 (ucast p1)\<rparr>])
                 rest
          else ParseNBS_layers version tick layer'
                 (if key = 0 then allNotess
                  else allNotess @
                    [\<lparr>Notes.Tick = tick, Layer = layer', Instrument = instrument, Key = key,
                      Velocity = 100, Panning = 100, Pitch = 0\<rparr>])
                 (velocity # panning # p0 # p1 # rest))"
  using assms
  by (subst ParseNBS_layers.simps) (simp add: readNoteFields_Cons)

text \<open>The witness: the same ten bytes decoded as version 4 (one note, with
  velocity 80, panning 90 and pitch \<open>-2\<close>) and as version 3 (a note with 100, 100
  and 0, after which the four bytes are read as the next entry).\<close>

theorem C6_version_gating_witness:
  "ParseNBS_layers 4 0 (- 1) [] [1, 0, 7, 45, 80, 90, 254, 255, 0, 0] =
     Inr ([\<lparr>Notes.Tick = 0, Layer = 0, Instrument = 7, Key = 45,
             Velocity = 80, Panning = 90, Pitch = 65534\<rparr>], []) \<and>
   sint (65534 :: 16 word) = - 2 \<and>
   ParseNBS_layers 3 0 (- 1) [] [1, 0, 7, 45, 80, 90, 254, 255, 0, 0] =
     Inr ([\<lparr>Notes.Tick = 0, Layer = 0, Instrument = 7, Key = 45,
             Velocity = 100, Panning = 100, Pitch = 0\<rparr>,
           \<lparr>Notes.Tick = 0, Layer = 23120, Instrument = 254, Key = 255,
             Velocity = 100, Panning = 100, Pitch = 0\<rparr>], [])"
  using C6_version_gating [where jumpLayers = 1 and ?j0.0 = 1 and ?j1.0 = 0 and layer' = 0
      and layer = "- 1" and version = 4 and tick = 0 and allNotess = "[]" and instrument = 7
      and key = 45 and velocity = 80 and panning = 90 and ?p0.0 = 254 and ?p1.0 = 255
      and rest = "[0, 0]"]
    C6_version_gating [where jumpLayers = 1 and ?j0.0 = 1 and ?j1.0 = 0 and layer' = 0
      and layer = "- 1" and version = 3 and tick = 0 and allNotess = "[]" and instrument = 7
      and key = 45 and velocity = 80 and panning = 90 and ?p0.0 = 254 and ?p1.0 = 255
      and rest = "[0, 0]"]
  by (simp add: go_int_def ParseNBS_layers.simps readNoteFields_old)

subsection \<open>C7: stop\<close>

text \<open>
  C7 is what the comment of \<open>stopSong\<close> promises (``Returns true if a song was
  stopped, false if not''), and the code breaks it. \<open>after_two_plays\<close> is the
  registry after \<open>playSong\<close> has registered handle 7 twice, for a first song with
  channel 0 and then for a second with channel 1: the second registration has
  signalled channel 0. The goroutine of the first song receives that signal at its
  next tick and returns, and its deferred \<open>delete(stopPlayer, eh)\<close> removes the entry
  of the handle, which by then is that of the second song. From there \<open>stopSong\<close>
  returns false and changes nothing, while the second song is playing and its
  channel 1 has never been signalled.
\<close>

theorem C7_stop_false_while_playing:
  "stopPlayer after_two_plays 7 = Some 1 \<and>
   fst (tryRecv 0 after_two_plays) = True \<and>
   stopSong 7 (playSong_deferred 7 (snd (tryRecv 0 after_two_plays))) =
     (False, playSong_deferred 7 (snd (tryRecv 0 after_two_plays))) \<and>
   full (playSong_deferred 7 (snd (tryRecv 0 after_two_plays))) 1 = False"
  by (simp add: after_two_plays_def empty_registry_def playSong_register_def trySend_def
      tryRecv_def playSong_deferred_def stopSong_def Let_def)

subsection \<open>C8: truncated input\<close>

text \<open>
  C8: the result of \<open>ParseNBS\<close> is either an error or the decoded data, never
  both. When \<open>ParseNBS\<close> succeeds on a file, having read all of it but \<open>rest\<close>, the
  same file cut anywhere inside the part that was read is refused with an error,
  and cut anywhere later it decodes to the same data.
\<close>

theorem C8_truncated_input_fails:
  assumes "ParseNBS_reader file = Inr (d, rest)"
  shows "(k < length file - length rest \<longrightarrow> (\<exists>e. ParseNBS (take k file) = Inl e)) \<and>
         (length file - length rest \<le> k \<longrightarrow> ParseNBS (take k file) = Inr d)"
proof -
  from exactR_ParseNBS_reader [of "file"] assms obtain c where
    c: "file = c @ rest"
    and e: "\<And>r'. ParseNBS_reader (c @ r') = Inr (d, r')"
    and t: "\<And>k. k < length c \<Longrightarrow> \<exists>e. ParseNBS_reader (take k c) = Inl e"
    unfolding exactR_def by blast
  have len: "length file - length rest = length c" by (simp add: c)
  show ?thesis
  proof (intro conjI impI)
    assume "k < length file - length rest"
    then have k: "k < length c" by (simp add: len)
    then have "take k file = take k c" by (simp add: c)
    with t [OF k] show "\<exists>e. ParseNBS (take k file) = Inl e"
      by (auto simp: ParseNBS_def)
  next
    assume "length file - length rest \<le> k"
    then have "take k file = c @ take (k - length c) rest" by (simp add: c)
    then show "ParseNBS (take k file) = Inr d"
      by (simp add: ParseNBS_def e)
  qed
qed

text \<open>The witness: \<open>short_example\<close> has 69 bytes, of which the decoder reads 67.\<close>

theorem C8_truncated_input_fails_witness:
  "(\<exists>e. ParseNBS (take 66 short_example) = Inl e) \<and>
   ParseNBS (take 67 short_example) =
     Inr \<lparr>Version = 3, Length = 0, Layers = 1, TempoRaw = 1000,
          Notess = [\<lparr>Notes.Tick = 0, Layer = 0, Instrument = 7, Key = 45,
                     Velocity = 100, Panning = 100, Pitch = 0\<rparr>]\<rparr>"
proof -
  have l: "length short_example = 69"
    by (simp add: short_example_def example_header_def)
  from C8_truncated_input_fails [OF ParseNBS_reader_short_example, of 66]
    C8_truncated_input_fails [OF ParseNBS_reader_short_example, of 67]
  show ?thesis by (simp add: l)
qed

subsection \<open>C9: the order of the notes\<close>

text \<open>
  C9: in the data decoded from a file of fewer than \<open>2 ^ 48\<close> bytes the ticks of
  the notes never decrease along the list, of two notes with the same tick the
  later in the list has the larger layer, and no tick and no layer is negative.
  Up to that size the additions to \<open>tick\<close> and \<open>layer\<close> stay inside the 64 bits of
  an \<open>int\<close>.
\<close>

theorem C9_notes_ordered:
  assumes "ParseNBS file = Inr d" and "length file < 2 ^ 48"
  shows "sorted (map Notes.Tick (Notess d)) \<and>
         (\<forall>i j. i < j \<and> j < length (Notess d) \<and>
                 Notes.Tick (Notess d ! i) = Notes.Tick (Notess d ! j) \<longrightarrow>
                 Notes.Layer (Notess d ! i) < Notes.Layer (Notess d ! j)) \<and>
         (\<forall>n \<in> set (Notess d). 0 \<le> Notes.Tick n \<and> 0 \<le> Notes.Layer n)"
proof -
  from ParseNBS_unfold [OF assms(1)] obtain len r0 rest where
    h: "ParseNBS_header file = Inr ((len, Version d, Layers d, TempoRaw d), r0)" and
    t: "ParseNBS_ticks (Version d) (- 1) [] r0 = Inr (Notess d, rest)"
    by blast
  have "length r0 \<le> length file" using h by (rule ParseNBS_header_length)
  with assms(2) have "int (length r0) < 2 ^ 48" by simp
  then have b: "- 1 + 32768 * int (length r0) < 2 ^ 63" by simp
  have "sorted_wrt before (Notess d) \<and>
        (\<forall>n \<in> set (Notess d). 0 \<le> Notes.Tick n \<and> 0 \<le> Notes.Layer n)"
    by (rule ParseNBS_ticks_sorted [OF t _ _ _ b]) simp_all
  then have s: "sorted_wrt before (Notess d)"
    and p: "\<forall>n \<in> set (Notess d). 0 \<le> Notes.Tick n \<and> 0 \<le> Notes.Layer n"
    by simp_all
  have "sorted_wrt (\<lambda>a b. Notes.Tick a \<le> Notes.Tick b) (Notess d)"
    by (rule sorted_wrt_mono_rel [OF _ s]) (auto simp: before_def)
  then have s1: "sorted (map Notes.Tick (Notess d))"
    by (simp add: sorted_map)
  have s2: "\<forall>i j. i < j \<and> j < length (Notess d) \<and>
                 Notes.Tick (Notess d ! i) = Notes.Tick (Notess d ! j) \<longrightarrow>
                 Notes.Layer (Notess d ! i) < Notes.Layer (Notess d ! j)"
  proof (intro allI impI)
    fix i j
    assume a: "i < j \<and> j < length (Notess d) \<and>
                 Notes.Tick (Notess d ! i) = Notes.Tick (Notess d ! j)"
    with s have "before (Notess d ! i) (Notess d ! j)"
      by (simp add: sorted_wrt_iff_nth_less)
    with a show "Notes.Layer (Notess d ! i) < Notes.Layer (Notess d ! j)"
      by (simp add: before_def)
  qed
  from s1 s2 p show ?thesis by blast
qed

text \<open>The witness: \<open>chord_example\<close>, with notes at tick 0 on layers 0 and 2 and at
  tick 3 on layer 1.\<close>

theorem C9_notes_ordered_witness:
  "sorted (map Notes.Tick
     [\<lparr>Notes.Tick = 0, Layer = 0, Instrument = 7, Key = 45,
       Velocity = 100, Panning = 100, Pitch = 0\<rparr>,
      \<lparr>Notes.Tick = 0, Layer = 2, Instrument = 7, Key = 46,
       Velocity = 100, Panning = 100, Pitch = 0\<rparr>,
      \<lparr>Notes.Tick = 3, Layer = 1, Instrument = 7, Key = 47,
       Velocity = 100, Panning = 100, Pitch = 0\<rparr>]) \<and>
   length chord_example < 2 ^ 48"
proof -
  have l: "length chord_example < 2 ^ 48"
    by (simp add: chord_example_def example_header_def)
  from C9_notes_ordered [OF ParseNBS_chord_example l] l
  show ?thesis by simp
qed

subsection \<open>C10: the recomputed length is a uint16\<close>

text \<open>
  C10: when the header declares length 0 and the decoder has produced a note, the
  length of the decoded song is the largest tick of a note modulo \<open>2 ^ 16\<close>; and
  there is a file whose largest tick is above 65535 and whose decoded song is
  shorter than that tick.
\<close>

theorem C10_length_wraps:
  "(ParseNBS file = Inr d \<and>
    ParseNBS_header file = Inr ((0, version, layers, tempoRaw), r0) \<and> Notess d \<noteq> [] \<longrightarrow>
      Song.Length (nbsConverter d) = Max (Notes.Tick ` set (Notess d)) mod 2 ^ 16) \<and>
   (\<exists>file' d'. ParseNBS file' = Inr d' \<and>
      Max (Notes.Tick ` set (Notess d')) > 65535 \<and>
      Song.Length (nbsConverter d') < Max (Notes.Tick ` set (Notess d')))"
proof (intro conjI impI)
  assume a: "ParseNBS file = Inr d \<and>
    ParseNBS_header file = Inr ((0, version, layers, tempoRaw), r0) \<and> Notess d \<noteq> []"
  from a ParseNBS_unfold [of "file" d] obtain len' r0' where
    h: "ParseNBS_header file = Inr ((len', Version d, Layers d, TempoRaw d), r0')" and
    l: "NBSData.Length d = (if len' = 0 \<and> length (Notess d) > 0
                 then word_of_int (maxTick (Notess d)) else len')"
    by blast
  from h a have "len' = 0" by simp
  with l a have "NBSData.Length d = word_of_int (Max (Notes.Tick ` set (Notess d)))"
    by (simp add: maxTick_Max)
  then show "Song.Length (nbsConverter d) = Max (Notes.Tick ` set (Notess d)) mod 2 ^ 16"
    by (simp add: nbsConverter_def uint_word_of_int_eq take_bit_eq_mod)
next
  show "\<exists>file' d'. ParseNBS file' = Inr d' \<and>
      Max (Notes.Tick ` set (Notess d')) > 65535 \<and>
      Song.Length (nbsConverter d') < Max (Notes.Tick ` set (Notess d'))"
    by (rule exI [of _ long_example], rule exI, rule conjI, rule ParseNBS_long_example)
      (simp add: nbsConverter_def)
qed

theorem C10_length_wraps_witness:
  "Song.Length (nbsConverter
     \<lparr>Version = 3, Length = 0, Layers = 1, TempoRaw = 1000,
      Notess = [\<lparr>Notes.Tick = 65534, Layer = 0, Instrument = 7, Key = 45,
                 Velocity = 100, Panning = 100, Pitch = 0\<rparr>,
                \<lparr>Notes.Tick = 65536, Layer = 0, Instrument = 7, Key = 46,
                 Velocity = 100, Panning = 100, Pitch = 0\<rparr>]\<rparr>) = 65536 mod 2 ^ 16"
proof -
  have h: "ParseNBS_header long_example = Inr ((0, 3, 1, 1000),
      [255, 255, 1, 0, 7, 45, 0, 0, 2, 0, 1, 0, 7, 46, 0, 0, 0, 0])"
    by (simp add: long_example_def ParseNBS_header_example)
  from C10_length_wraps [of long_example _ 3 1 1000] ParseNBS_long_example h
  show ?thesis by simp
qed

end
